theory Spec2Isabelle
  imports Main
begin

section \<open>Loading state: the aggregated boolean tree (loading.svelte.ts)\<close>

text \<open>
  The stores of \<^verbatim>\<open>loading.svelte.ts\<close> are JavaScript objects that refer to one another:
  a store made by \<^verbatim>\<open>create\<close> owns a \<^verbatim>\<open>SvelteSet\<close> named \<^verbatim>\<open>values\<close> holding references to
  its child stores, and every child may be read and written through the reference its
  creator keeps. The model is an explicit object store: a heap is a list of nodes, the
  reference to a node is its index, and a fresh object gets the index \<open>length h\<close>.

  The two closures handed to \<^verbatim>\<open>create(get, set)\<close> are data:
  \<^item> \<^verbatim>\<open>() => value\<close> over a \<^verbatim>\<open>$state\<close> cell is \<open>StateCell b\<close>, with \<open>b\<close> the cell's content;
  \<^item> a caller's \<^verbatim>\<open>from\<close> is \<open>From f\<close>, a function of the caller's own state \<open>'e\<close>
    (side-effect free and total, as its type \<^verbatim>\<open>() => boolean\<close> says);
  \<^item> \<^verbatim>\<open>(val) => (value = val)\<close> is \<open>AssignState\<close>, and the default \<^verbatim>\<open>readonly_error\<close> is
    \<open>ReadonlyError\<close>.
\<close>

datatype error = Error string | TypeError string

datatype 'e getter = StateCell bool | From "'e \<Rightarrow> bool"

datatype setter = AssignState | ReadonlyError

text \<open>The timer handle of \<^verbatim>\<open>setTimeout\<close>: armed, run by the host, or cleared.\<close>

datatype timer = Pending | Fired | Cleared

text \<open>
  A node is either the object returned by \<^verbatim>\<open>create\<close> (its \<^verbatim>\<open>get\<close>, its \<^verbatim>\<open>set\<close> and the
  \<^verbatim>\<open>values\<close> set, in insertion order) or the object literal built by \<^verbatim>\<open>promised\<close> (its
  \<^verbatim>\<open>$state\<close> flag and the timer handle captured by \<^verbatim>\<open>cleanup\<close>).
\<close>

datatype 'e node =
    Store "'e getter" setter "nat list"
  | PromisedStore bool timer

type_synonym 'e heap = "'e node list"

text \<open>\<^verbatim>\<open>function readonly_error() { throw new Error('Readonly property'); }\<close>\<close>

definition readonly_error :: error where
  "readonly_error = Error ''Readonly property''"

text \<open>Calling the \<^verbatim>\<open>get\<close> closure in the caller's state \<open>e\<close>.\<close>

fun call_get :: "'e getter \<Rightarrow> 'e \<Rightarrow> bool" where
  "call_get (StateCell b) e = b"
| "call_get (From f) e = f e"

text \<open>
  Calling the \<^verbatim>\<open>set\<close> closure: \<open>AssignState\<close> overwrites the \<^verbatim>\<open>$state\<close> cell that the
  \<^verbatim>\<open>get\<close> closure reads, \<open>ReadonlyError\<close> throws.
\<close>

fun call_set :: "setter \<Rightarrow> bool \<Rightarrow> 'e getter \<Rightarrow> error + 'e getter" where
  "call_set AssignState val (StateCell b) = Inr (StateCell val)"
| "call_set AssignState val (From f) = Inr (From f)"
| "call_set ReadonlyError val g = Inl readonly_error"

subsection \<open>Reading: \<^verbatim>\<open>current()\<close>, the \<^verbatim>\<open>value\<close> getters and \<^verbatim>\<open>or\<close>\<close>

text \<open>
  The loop of \<^verbatim>\<open>current\<close>:
  \<^verbatim>\<open>for (const v of values) { value = value || v.value; }\<close>.
  \<open>rd v\<close> is the read of \<^verbatim>\<open>v.value\<close>; \<^verbatim>\<open>||\<close> does not evaluate it once \<open>value\<close> is true.
\<close>

fun current_loop :: "(nat \<Rightarrow> bool option) \<Rightarrow> bool \<Rightarrow> nat list \<Rightarrow> bool option" where
  "current_loop rd val [] = Some val"
| "current_loop rd val (v # vs) =
     (if val then current_loop rd val vs
      else (case rd v of None \<Rightarrow> None | Some b \<Rightarrow> current_loop rd b vs))"

text \<open>
  The \<^verbatim>\<open>value\<close> getter of the node at reference \<open>n\<close>. For a \<open>Store\<close> it is \<^verbatim>\<open>current()\<close>,
  which reads every child through the child's own getter; for a \<open>PromisedStore\<close> it is
  the flag. The recursion through the children is bounded by fuel: \<open>None\<close> means that the
  fuel ran out (or that a reference points outside the heap, which no object reference
  does).
\<close>

fun read_value :: "nat \<Rightarrow> 'e \<Rightarrow> 'e heap \<Rightarrow> nat \<Rightarrow> bool option" where
  "read_value 0 e h n = None"
| "read_value (Suc k) e h n =
     (if n < length h then
        (case h ! n of
           Store g s vs \<Rightarrow> current_loop (read_value k e h) (call_get g e) vs
         | PromisedStore b t \<Rightarrow> Some b)
      else None)"

text \<open>
  \<^verbatim>\<open>or(other)\<close>: \<^verbatim>\<open>current() || Boolean(other)\<close> on a store of \<^verbatim>\<open>create\<close>,
  \<^verbatim>\<open>value || Boolean(other)\<close> on a promised store. \<open>coerce\<close> is JavaScript's \<^verbatim>\<open>Boolean\<close>.
\<close>

fun or_other :: "nat \<Rightarrow> 'e \<Rightarrow> 'e heap \<Rightarrow> nat \<Rightarrow> ('x \<Rightarrow> bool) \<Rightarrow> 'x \<Rightarrow> bool option" where
  "or_other 0 e h n coerce other = None"
| "or_other (Suc k) e h n coerce other =
     (if n < length h then
        (case h ! n of
           Store g s vs \<Rightarrow>
             (case current_loop (read_value k e h) (call_get g e) vs of
                None \<Rightarrow> None
              | Some b \<Rightarrow> Some (if b then True else coerce other))
         | PromisedStore b t \<Rightarrow> Some (if b then True else coerce other))
      else None)"

text \<open>
  No chain of children is longer than the number of objects allocated, so \<open>length h\<close> is
  fuel enough on every heap the operations below build (lemma \<open>read_value_total\<close>).
\<close>

definition value_of :: "'e \<Rightarrow> 'e heap \<Rightarrow> nat \<Rightarrow> bool option" where
  "value_of e h n = read_value (length h) e h n"

definition or_of :: "'e \<Rightarrow> 'e heap \<Rightarrow> nat \<Rightarrow> ('x \<Rightarrow> bool) \<Rightarrow> 'x \<Rightarrow> bool option" where
  "or_of e h n coerce other = or_other (length h) e h n coerce other"

subsection \<open>Creating stores\<close>

text \<open>\<^verbatim>\<open>create(get, set = readonly_error)\<close>: a store with an empty \<^verbatim>\<open>values\<close> set.\<close>

definition create :: "'e getter \<Rightarrow> setter \<Rightarrow> 'e node" where
  "create g s = Store g s []"

text \<open>
  \<^verbatim>\<open>Set.prototype.add\<close> and \<^verbatim>\<open>Set.prototype.delete\<close> on the \<^verbatim>\<open>values\<close> set: an element is
  held once, in insertion order.
\<close>

definition values_add :: "nat \<Rightarrow> nat list \<Rightarrow> nat list" where
  "values_add c vs = (if c \<in> set vs then vs else vs @ [c])"

definition values_delete :: "nat \<Rightarrow> nat list \<Rightarrow> nat list" where
  "values_delete c vs = filter (\<lambda>v. v \<noteq> c) vs"

text \<open>
  The teardown hook \<^verbatim>\<open>values.delete.bind(values, store)\<close> handed to \<^verbatim>\<open>onDestroy\<close>: the
  parent whose \<^verbatim>\<open>values\<close> set it is bound to, and the store it deletes.
\<close>

record hook =
  hook_parent :: nat
  hook_store :: nat

text \<open>
  The common tail of \<^verbatim>\<open>scoped\<close>, \<^verbatim>\<open>derived\<close> and \<^verbatim>\<open>promised\<close>: the new object \<open>store\<close> is
  allocated, the hook is handed to \<^verbatim>\<open>onDestroy\<close>, and \<^verbatim>\<open>values.add(store)\<close> registers it
  with the parent \<open>p\<close>. The three are methods of the object returned by \<^verbatim>\<open>create\<close> only; the
  object built by \<^verbatim>\<open>promised\<close> has none of them, so the call on it is a \<^verbatim>\<open>TypeError\<close>. The
  calls are taken to be made while a component initialises, where \<^verbatim>\<open>onDestroy\<close> accepts
  the hook.
\<close>

definition register_child :: "nat \<Rightarrow> 'e node \<Rightarrow> 'e heap \<Rightarrow> error + ('e heap \<times> nat \<times> hook)" where
  "register_child p store h =
     (if p < length h then
        (case h ! p of
           Store g s vs \<Rightarrow>
             (let c = length h;
                  h1 = h @ [store];
                  h2 = h1[p := Store g s (values_add c vs)]
              in Inr (h2, c, \<lparr>hook_parent = p, hook_store = c\<rparr>))
         | PromisedStore b t \<Rightarrow> Inl (TypeError ''not a function''))
      else Inl (TypeError ''not a function''))"

definition scoped :: "nat \<Rightarrow> bool \<Rightarrow> 'e heap \<Rightarrow> error + ('e heap \<times> nat \<times> hook)" where
  "scoped p initial h = register_child p (create (StateCell initial) AssignState) h"

definition derived :: "nat \<Rightarrow> ('e \<Rightarrow> bool) \<Rightarrow> 'e heap \<Rightarrow> error + ('e heap \<times> nat \<times> hook)" where
  "derived p f h = register_child p (create (From f) ReadonlyError) h"

text \<open>
  \<^verbatim>\<open>promised(promise, delay)\<close>: the flag starts \<^verbatim>\<open>false\<close> and the timer is armed. The delay
  and the promise belong to the host's timeline (section on the promise-tracking node).
\<close>

definition promised :: "nat \<Rightarrow> 'e heap \<Rightarrow> error + ('e heap \<times> nat \<times> hook)" where
  "promised p h = register_child p (PromisedStore False Pending) h"

text \<open>The roots: \<^verbatim>\<open>useLoading(initial)\<close> and \<^verbatim>\<open>useLoading.derived(from)\<close>.\<close>

definition useLoading :: "bool \<Rightarrow> 'e heap \<Rightarrow> 'e heap \<times> nat" where
  "useLoading initial h = (h @ [create (StateCell initial) AssignState], length h)"

definition useLoading_derived :: "('e \<Rightarrow> bool) \<Rightarrow> 'e heap \<Rightarrow> 'e heap \<times> nat" where
  "useLoading_derived f h = (h @ [create (From f) ReadonlyError], length h)"

subsection \<open>Writing, teardown and the callbacks of the promised store\<close>

text \<open>
  The assignment \<^verbatim>\<open>store.value = val\<close>. On a store of \<^verbatim>\<open>create\<close> the setter calls \<^verbatim>\<open>set(val)\<close>.
  The object built by \<^verbatim>\<open>promised\<close> declares \<^verbatim>\<open>get value()\<close> and no setter: the source files
  are ES modules, hence strict code, where assigning to a getter-only property throws a
  \<^verbatim>\<open>TypeError\<close>. The result is the exception thrown, if any, and the heap after the call.
\<close>

definition getter_only :: error where
  "getter_only = TypeError ''Cannot set property value of #<Object> which has only a getter''"

definition set_value :: "nat \<Rightarrow> bool \<Rightarrow> 'e heap \<Rightarrow> error option \<times> 'e heap" where
  "set_value n val h =
     (if n < length h then
        (case h ! n of
           Store g s vs \<Rightarrow>
             (case call_set s val g of
                Inl err \<Rightarrow> (Some err, h)
              | Inr g' \<Rightarrow> (None, h[n := Store g' s vs]))
         | PromisedStore b t \<Rightarrow> (Some getter_only, h))
      else (Some (TypeError ''no such object''), h))"

text \<open>(The last branch stands for a reference outside the heap, which no object reference is.)\<close>

text \<open>Running a teardown hook: \<^verbatim>\<open>values.delete(store)\<close> on the parent's set.\<close>

definition run_hook :: "hook \<Rightarrow> 'e heap \<Rightarrow> 'e heap" where
  "run_hook k h =
     (if hook_parent k < length h then
        (case h ! hook_parent k of
           Store g s vs \<Rightarrow> h[hook_parent k := Store g s (values_delete (hook_store k) vs)]
         | PromisedStore b t \<Rightarrow> h)
      else h)"

text \<open>\<^verbatim>\<open>clearTimeout\<close>: cancels an armed timer, and does nothing to any other handle.\<close>

fun clearTimeout :: "timer \<Rightarrow> timer" where
  "clearTimeout Pending = Cleared"
| "clearTimeout t = t"

text \<open>
  The host runs the \<^verbatim>\<open>setTimeout\<close> callback \<^verbatim>\<open>() => { value = true; }\<close> when the timer is
  due and still armed; a timer that was cleared (or has run) does nothing.
\<close>

fun timer_due :: "'e node \<Rightarrow> 'e node" where
  "timer_due (PromisedStore b Pending) = PromisedStore True Fired"
| "timer_due nd = nd"

text \<open>
  The callback of \<^verbatim>\<open>promise.finally\<close>: \<^verbatim>\<open>value = false; cleanup();\<close>, whatever the outcome.
\<close>

fun settled :: "'e node \<Rightarrow> 'e node" where
  "settled (PromisedStore b t) = PromisedStore False (clearTimeout t)"
| "settled nd = nd"

definition on_node :: "('e node \<Rightarrow> 'e node) \<Rightarrow> nat \<Rightarrow> 'e heap \<Rightarrow> 'e heap" where
  "on_node f n h = (if n < length h then h[n := f (h ! n)] else h)"

subsection \<open>Histories of the tree\<close>

text \<open>
  Everything that can happen to the tree: a root or a child is created, a \<^verbatim>\<open>value\<close> is
  assigned, the host runs a teardown hook, a timer falls due, a tracked promise settles.
  An action that throws leaves the heap as it was.
\<close>

datatype 'e action =
    UseLoading bool
  | UseLoadingDerived "'e \<Rightarrow> bool"
  | Scoped nat bool
  | Derived nat "'e \<Rightarrow> bool"
  | Promised nat
  | SetValue nat bool
  | Teardown hook
  | TimerDue nat
  | Settled nat

definition created_heap :: "error + ('e heap \<times> nat \<times> hook) \<Rightarrow> 'e heap \<Rightarrow> 'e heap" where
  "created_heap r h = (case r of Inl err \<Rightarrow> h | Inr (h', c, k) \<Rightarrow> h')"

fun step :: "'e action \<Rightarrow> 'e heap \<Rightarrow> 'e heap" where
  "step (UseLoading initial) h = fst (useLoading initial h)"
| "step (UseLoadingDerived f) h = fst (useLoading_derived f h)"
| "step (Scoped p initial) h = created_heap (scoped p initial h) h"
| "step (Derived p f) h = created_heap (derived p f h) h"
| "step (Promised p) h = created_heap (promised p h) h"
| "step (SetValue n val) h = snd (set_value n val h)"
| "step (Teardown k) h = run_hook k h"
| "step (TimerDue n) h = on_node timer_due n h"
| "step (Settled n) h = on_node settled n h"

fun run :: "'e action list \<Rightarrow> 'e heap \<Rightarrow> 'e heap" where
  "run [] h = h"
| "run (a # as) h = run as (step a h)"

text \<open>The \<^verbatim>\<open>values\<close> set of the object at \<open>n\<close> (a promised store has none).\<close>

fun node_values :: "'e node \<Rightarrow> nat list" where
  "node_values (Store g s vs) = vs"
| "node_values (PromisedStore b t) = []"

definition values_of :: "'e heap \<Rightarrow> nat \<Rightarrow> nat list" where
  "values_of h n = node_values (h ! n)"

text \<open>
  The shape every history keeps: a \<^verbatim>\<open>values\<close> set holds objects allocated after its owner,
  each once, and no object is in two sets.
\<close>

definition wf_heap :: "'e heap \<Rightarrow> bool" where
  "wf_heap h =
     ((\<forall>n < length h. distinct (values_of h n) \<and> (\<forall>c \<in> set (values_of h n). n < c \<and> c < length h)) \<and>
      (\<forall>m < length h. \<forall>n < length h. m \<noteq> n \<longrightarrow> set (values_of h m) \<inter> set (values_of h n) = {}))"

text \<open>
  What \<^verbatim>\<open>store.value = val\<close> meets at a node: the \<^verbatim>\<open>set\<close> closure given to \<^verbatim>\<open>create\<close>, or no
  setter at all on the object built by \<^verbatim>\<open>promised\<close>.
\<close>

fun node_setter :: "'e node \<Rightarrow> setter option" where
  "node_setter (Store g s vs) = Some s"
| "node_setter (PromisedStore b t) = None"

subsection \<open>The promise-tracking node on the host's timeline\<close>

text \<open>
  \<^verbatim>\<open>promised(promise, delay)\<close> hands two callbacks to the host: one to \<^verbatim>\<open>setTimeout\<close>, with
  \<open>delay\<close>, and one to \<^verbatim>\<open>promise.finally\<close>, run once when the promise settles, fulfilled or
  rejected alike. Time is counted in milliseconds from the call of \<^verbatim>\<open>promised\<close>.

  \<^verbatim>\<open>setTimeout\<close> does not keep the number it is given: it converts it to a signed 32-bit
  integer (the number is truncated to an integer, here \<open>delay\<close>, and reduced modulo \<open>2^32\<close>
  into \<open>-2^31 .. 2^31 - 1\<close>) and takes a negative result as 0. The timer is taken to run
  exactly when the delay so obtained has elapsed, unless the handle was cleared first.
\<close>

definition to_int32 :: "int \<Rightarrow> int" where
  "to_int32 d = (let m = d mod 2 ^ 32 in if 2 ^ 31 \<le> m then m - 2 ^ 32 else m)"

definition timer_delay :: "int \<Rightarrow> nat" where
  "timer_delay delay = (if to_int32 delay < 0 then 0 else nat (to_int32 delay))"

datatype outcome = Fulfilled | Rejected

datatype host_event = TimerElapsed | PromiseSettled outcome

fun dispatch :: "host_event \<Rightarrow> 'e node \<Rightarrow> 'e node" where
  "dispatch TimerElapsed nd = timer_due nd"
| "dispatch (PromiseSettled oc) nd = settled nd"

text \<open>
  The host's agenda for one promised store, in the order the callbacks run: the timer at
  \<open>timer_delay delay\<close> and the settlement at \<open>ts\<close>. When both fall on the same millisecond
  the order is the host's choice, \<open>timer_first\<close>.
\<close>

definition agenda :: "int \<Rightarrow> nat \<Rightarrow> outcome \<Rightarrow> bool \<Rightarrow> (nat \<times> host_event) list" where
  "agenda delay ts oc timer_first =
     (if timer_delay delay < ts \<or> (timer_delay delay = ts \<and> timer_first)
      then [(timer_delay delay, TimerElapsed), (ts, PromiseSettled oc)]
      else [(ts, PromiseSettled oc), (timer_delay delay, TimerElapsed)])"

text \<open>The heap at time \<open>t\<close>: every callback due at or before \<open>t\<close> has run on the store \<open>c\<close>.\<close>

definition timeline :: "nat \<Rightarrow> int \<Rightarrow> nat \<Rightarrow> outcome \<Rightarrow> bool \<Rightarrow> nat \<Rightarrow> 'e heap \<Rightarrow> 'e heap" where
  "timeline c delay ts oc timer_first t h =
     fold (\<lambda>ev. on_node (dispatch ev) c)
       (map snd (filter (\<lambda>(u, ev). u \<le> t) (agenda delay ts oc timer_first))) h"

section \<open>Gated value cell (lockable.svelte.ts)\<close>

text \<open>
  \<^verbatim>\<open>lockable.from(lock, accessor)\<close> wraps a place it does not own. The world outside the cell
  is a state \<open>'s\<close>: \<^verbatim>\<open>lock\<close> reads it, \<^verbatim>\<open>accessor.get\<close> reads it and \<^verbatim>\<open>accessor.set\<close> changes it.
  \<^verbatim>\<open>lock\<close> and the two functions of the accessor are taken to return.

  A JavaScript function is called on a receiver, its \<^verbatim>\<open>this\<close>: \<^verbatim>\<open>accessor.get()\<close> and
  \<^verbatim>\<open>accessor.set(v)\<close> run on the accessor, while \<^verbatim>\<open>store.force(v)\<close> runs the same \<^verbatim>\<open>set\<close>
  function on the store, because \<^verbatim>\<open>get force() { return accessor.set; }\<close> hands the function
  out without binding it. An arrow function ignores its receiver; a method written with
  \<^verbatim>\<open>this\<close> does not. The functions of an accessor therefore take the receiver as an argument.
\<close>

datatype receiver = TheAccessor | TheStore

record ('s, 'a) accessor =
  acc_get :: "receiver \<Rightarrow> 's \<Rightarrow> 'a"
  acc_set :: "receiver \<Rightarrow> 'a \<Rightarrow> 's \<Rightarrow> 's"

text \<open>
  The second parameter of \<^verbatim>\<open>from\<close> is either a \<^verbatim>\<open>{get, set}\<close> pair or an object with a \<^verbatim>\<open>value\<close>
  property, given here by what reading and assigning that property do.
\<close>

datatype ('s, 'a) accessor_arg =
    GetSet "receiver \<Rightarrow> 's \<Rightarrow> 'a" "receiver \<Rightarrow> 'a \<Rightarrow> 's \<Rightarrow> 's"
  | ValueObject "'s \<Rightarrow> 'a" "'a \<Rightarrow> 's \<Rightarrow> 's"

text \<open>
  \<^verbatim>\<open>if ('value' in accessor) { accessor = { get: () => store.value, set: (v) => { store.value = v; } }; }\<close>:
  two arrow functions.
\<close>

fun normalize :: "('s, 'a) accessor_arg \<Rightarrow> ('s, 'a) accessor" where
  "normalize (GetSet g s) = \<lparr>acc_get = g, acc_set = s\<rparr>"
| "normalize (ValueObject rd wr) = \<lparr>acc_get = (\<lambda>this w. rd w), acc_set = (\<lambda>this v w. wr v w)\<rparr>"

text \<open>What the closures of the returned store capture: the predicate and the accessor.\<close>

record ('s, 'a) lockable_store =
  lock :: "'s \<Rightarrow> bool"
  accessor :: "('s, 'a) accessor"

definition lockable_from :: "('s \<Rightarrow> bool) \<Rightarrow> ('s, 'a) accessor_arg \<Rightarrow> ('s, 'a) lockable_store" where
  "lockable_from lk arg = \<lparr>lock = lk, accessor = normalize arg\<rparr>"

text \<open>
  \<^verbatim>\<open>lockable(lock, value)\<close>: the place is a fresh \<^verbatim>\<open>$state\<close> cell \<^verbatim>\<open>val\<close>, kept here beside the
  rest of the world that \<^verbatim>\<open>lock\<close> reads; its accessor is
  \<^verbatim>\<open>{ get: () => val, set: (v) => { val = v; } }\<close>.
\<close>

definition lockable :: "('x \<Rightarrow> bool) \<Rightarrow> ('x \<times> 'a, 'a) lockable_store" where
  "lockable lk = lockable_from (\<lambda>w. lk (fst w)) (GetSet (\<lambda>this. snd) (\<lambda>this v w. (fst w, v)))"

text \<open>The \<^verbatim>\<open>detail\<close> of the \<^verbatim>\<open>update-prevented\<close> event: \<^verbatim>\<open>{ value: old, newValue: v }\<close>.\<close>

record 'a locked_detail =
  detail_value :: 'a
  detail_newValue :: 'a

text \<open>
  The mutable state: the world outside; the \<^verbatim>\<open>listeners\<close> set; the \<^verbatim>\<open>abort\<close> listeners that
  \<^verbatim>\<open>onupdateprevented\<close> put on signals, and the signals that have fired. Two more fields
  keep the record of what happened: \<open>calls\<close>, every listener call made so far with the
  event built for it, and \<open>found\<close>, the world each of these calls was made in.

  A listener is known by its identity, a number. The \<^verbatim>\<open>listeners\<close> set is the entry list of
  a JavaScript \<^verbatim>\<open>Set\<close>: \<^verbatim>\<open>add\<close> appends an element that is not in it, \<^verbatim>\<open>delete\<close> leaves an
  empty slot behind, and a running \<^verbatim>\<open>for ... of\<close> walks the list by index, skipping empty
  slots and reaching elements appended meanwhile.
\<close>

record ('s, 'a) cell =
  outside :: 's
  listeners :: "nat option list"
  abort_listeners :: "(nat \<times> nat) list"
  aborted :: "nat list"
  calls :: "(nat \<times> 'a locked_detail) list"
  found :: "'s list"

definition new_cell :: "'s \<Rightarrow> ('s, 'a) cell" where
  "new_cell w =
     \<lparr>outside = w, listeners = [], abort_listeners = [], aborted = [], calls = [], found = []\<rparr>"

definition set_add :: "nat \<Rightarrow> nat option list \<Rightarrow> nat option list" where
  "set_add l ls = (if Some l \<in> set ls then ls else ls @ [Some l])"

definition set_delete :: "nat \<Rightarrow> nat option list \<Rightarrow> nat option list" where
  "set_delete l ls = map (\<lambda>x. if x = Some l then None else x) ls"

definition set_size :: "nat option list \<Rightarrow> nat" where
  "set_size ls = length (filter (\<lambda>x. x \<noteq> None) ls)"

text \<open>The elements of the set, in insertion order.\<close>

definition live :: "nat option list \<Rightarrow> nat list" where
  "live ls = concat (map (\<lambda>x. case x of None \<Rightarrow> [] | Some l \<Rightarrow> [l]) ls)"

text \<open>
  \<^verbatim>\<open>onupdateprevented(listener, signal)\<close>: adds the listener and, when a signal is given, puts
  \<^verbatim>\<open>cleanup\<close> on the signal as a once-only \<^verbatim>\<open>abort\<close> listener. The function it returns is
  \<open>cleanup\<close> of the same listener: \<^verbatim>\<open>listeners.delete.bind(listeners, listener)\<close>.
\<close>

definition onupdateprevented :: "nat \<Rightarrow> nat option \<Rightarrow> ('s, 'a) cell \<Rightarrow> ('s, 'a) cell" where
  "onupdateprevented l signal c =
     c\<lparr>listeners := set_add l (listeners c),
       abort_listeners := (case signal of None \<Rightarrow> abort_listeners c
                           | Some sg \<Rightarrow> abort_listeners c @ [(sg, l)])\<rparr>"

definition cleanup :: "nat \<Rightarrow> ('s, 'a) cell \<Rightarrow> ('s, 'a) cell" where
  "cleanup l c = c\<lparr>listeners := set_delete l (listeners c)\<rparr>"

text \<open>
  The host fires \<^verbatim>\<open>abort\<close> on a signal once: each \<^verbatim>\<open>cleanup\<close> put on it runs and is dropped.
  A listener put on a signal that has fired already is never run.
\<close>

definition abort :: "nat \<Rightarrow> ('s, 'a) cell \<Rightarrow> ('s, 'a) cell" where
  "abort sg c =
     (if sg \<in> set (aborted c) then c
      else c\<lparr>listeners := fold (\<lambda>(sg', l) ls. if sg' = sg then set_delete l ls else ls)
                            (abort_listeners c) (listeners c),
             abort_listeners := filter (\<lambda>(sg', l). sg' \<noteq> sg) (abort_listeners c),
             aborted := sg # aborted c\<rparr>)"

text \<open>\<^verbatim>\<open>get value() { return accessor.get(); }\<close> and \<^verbatim>\<open>get locked() { return lock(); }\<close>\<close>

definition get_value :: "('s, 'a) lockable_store \<Rightarrow> ('s, 'a) cell \<Rightarrow> 'a" where
  "get_value st c = acc_get (accessor st) TheAccessor (outside c)"

definition locked :: "('s, 'a) lockable_store \<Rightarrow> ('s, 'a) cell \<Rightarrow> bool" where
  "locked st c = lock st (outside c)"

text \<open>
  \<^verbatim>\<open>get force() { return accessor.set; }\<close>: \<^verbatim>\<open>store.force(v)\<close> runs \<^verbatim>\<open>accessor.set\<close> with the store
  as its receiver.
\<close>

definition force :: "('s, 'a) lockable_store \<Rightarrow> 'a \<Rightarrow> ('s, 'a) cell \<Rightarrow> ('s, 'a) cell" where
  "force st v c = c\<lparr>outside := acc_set (accessor st) TheStore v (outside c)\<rparr>"

text \<open>
  A listener is the caller's code. What it does when called is a list of commands, chosen
  from the event it is given and the world it finds: call \<^verbatim>\<open>store.force(x)\<close>; assign
  \<^verbatim>\<open>store.value = x\<close>, which enters the setter again; call
  \<^verbatim>\<open>store.onupdateprevented(l, signal)\<close>; call the \<^verbatim>\<open>cleanup\<close> of a listener; abort a signal;
  change the world directly (the place belongs to the caller, who can write it without the
  store); throw. A listener does not catch what a call it makes throws.
\<close>

datatype ('s, 'a) command =
    Force 'a
  | Assign 'a
  | On nat "nat option"
  | Off nat
  | Abort nat
  | Mutate "'s \<Rightarrow> 's"
  | Throw

type_synonym ('s, 'a) handlers = "nat \<Rightarrow> 'a locked_detail \<Rightarrow> 's \<Rightarrow> ('s, 'a) command list"

text \<open>How a call ends, and the state it leaves: it returns, or an exception leaves it.\<close>

datatype 'c result = Returned 'c | Threw 'c

fun state_of :: "'c result \<Rightarrow> 'c" where
  "state_of (Returned c) = c"
| "state_of (Threw c) = c"

text \<open>The commands that are a single step on the state.\<close>

fun run_command :: "('s, 'a) lockable_store \<Rightarrow> ('s, 'a) command \<Rightarrow> ('s, 'a) cell \<Rightarrow> ('s, 'a) cell" where
  "run_command st (Force x) c = force st x c"
| "run_command st (On l signal) c = onupdateprevented l signal c"
| "run_command st (Off l) c = cleanup l c"
| "run_command st (Abort sg) c = abort sg c"
| "run_command st (Mutate f) c = c\<lparr>outside := f (outside c)\<rparr>"
| "run_command st (Assign x) c = c"
| "run_command st Throw c = c"

text \<open>
  The body of a listener, run command by command. \<open>assign\<close> is the setter it enters when it
  assigns to \<^verbatim>\<open>store.value\<close>. An exception ends the body on the spot.
\<close>

fun run_commands :: "('a \<Rightarrow> ('s, 'a) cell \<Rightarrow> ('s, 'a) cell result option) \<Rightarrow> ('s, 'a) lockable_store
    \<Rightarrow> ('s, 'a) command list \<Rightarrow> ('s, 'a) cell \<Rightarrow> ('s, 'a) cell result option" where
  "run_commands assign st [] c = Some (Returned c)"
| "run_commands assign st (Throw # cs) c = Some (Threw c)"
| "run_commands assign st (Assign x # cs) c =
     (case assign x c of
        None \<Rightarrow> None
      | Some (Threw c') \<Rightarrow> Some (Threw c')
      | Some (Returned c') \<Rightarrow> run_commands assign st cs c')"
| "run_commands assign st (cmd # cs) c = run_commands assign st cs (run_command st cmd c)"

text \<open>
  The loop of the setter, from entry \<open>i\<close> of the set on:
  \<^verbatim>\<open>for (const listener of listeners) { const old = untrack(() => accessor.get());
    listener(new CustomEvent('update-prevented', { detail: { value: old, newValue: v } })); }\<close>.
  There is no \<^verbatim>\<open>try\<close> around the call: a listener that throws ends the loop and the setter.
  A listener that keeps adding listeners keeps the loop running, so the loop is bounded by
  fuel: \<open>None\<close> means that the fuel ran out.
\<close>

fun notify :: "nat \<Rightarrow> ('a \<Rightarrow> ('s, 'a) cell \<Rightarrow> ('s, 'a) cell result option) \<Rightarrow> ('s, 'a) lockable_store
    \<Rightarrow> ('s, 'a) handlers \<Rightarrow> 'a \<Rightarrow> nat \<Rightarrow> ('s, 'a) cell \<Rightarrow> ('s, 'a) cell result option" where
  "notify 0 assign st H v i c = None"
| "notify (Suc k) assign st H v i c =
     (if i < length (listeners c) then
        (case listeners c ! i of
           None \<Rightarrow> notify k assign st H v (Suc i) c
         | Some listener \<Rightarrow>
             (let old = acc_get (accessor st) TheAccessor (outside c);
                  ev = \<lparr>detail_value = old, detail_newValue = v\<rparr>;
                  c1 = c\<lparr>calls := calls c @ [(listener, ev)], found := found c @ [outside c]\<rparr>
              in (case run_commands assign st (H listener ev (outside c1)) c1 of
                    None \<Rightarrow> None
                  | Some (Threw c2) \<Rightarrow> Some (Threw c2)
                  | Some (Returned c2) \<Rightarrow> notify k assign st H v (Suc i) c2)))
      else Some (Returned c))"

text \<open>
  The setter \<^verbatim>\<open>set value(v)\<close>:
  \<^verbatim>\<open>const locked = lock(); if (locked) { if (!listeners.size) return; for ... } else { accessor.set(v); }\<close>.
  The fuel bounds the rounds of the loop and the depth to which listeners enter the setter
  again.
\<close>

fun set_value_locked :: "nat \<Rightarrow> ('s, 'a) lockable_store \<Rightarrow> ('s, 'a) handlers \<Rightarrow> 'a \<Rightarrow> ('s, 'a) cell
    \<Rightarrow> ('s, 'a) cell result option" where
  "set_value_locked 0 st H v c = None"
| "set_value_locked (Suc k) st H v c =
     (if lock st (outside c) then
        (if set_size (listeners c) = 0 then Some (Returned c)
         else notify k (set_value_locked k st H) st H v 0 c)
      else Some (Returned (c\<lparr>outside := acc_set (accessor st) TheAccessor v (outside c)\<rparr>)))"

text \<open>
  What the claims about the notifications are measured against. \<open>writes\<close> is what the body
  of a listener that does not enter the setter does to the world: its \<^verbatim>\<open>force\<close> calls and
  its direct writes, up to the first exception. \<open>replay\<close> is the world after the calls \<open>xs\<close>
  of such listeners, one after the other. \<open>call_in_turn\<close> calls the listeners \<open>ls\<close> one after
  the other from the world \<open>w\<close>, each with an event whose \<^verbatim>\<open>value\<close> is read from the accessor
  just before the call, and gives the calls made and the world left behind.
\<close>

fun writes :: "('s, 'a) lockable_store \<Rightarrow> ('s, 'a) command list \<Rightarrow> 's \<Rightarrow> 's" where
  "writes st [] w = w"
| "writes st (Throw # cs) w = w"
| "writes st (Force x # cs) w = writes st cs (acc_set (accessor st) TheStore x w)"
| "writes st (Mutate f # cs) w = writes st cs (f w)"
| "writes st (cmd # cs) w = writes st cs w"

fun replay :: "('s, 'a) lockable_store \<Rightarrow> ('s, 'a) handlers \<Rightarrow> (nat \<times> 'a locked_detail) list \<Rightarrow> 's \<Rightarrow> 's" where
  "replay st H [] w = w"
| "replay st H (x # xs) w = replay st H xs (writes st (H (fst x) (snd x) w) w)"

fun call_in_turn :: "('s, 'a) lockable_store \<Rightarrow> ('s, 'a) handlers \<Rightarrow> 'a \<Rightarrow> nat list \<Rightarrow> 's
    \<Rightarrow> (nat \<times> 'a locked_detail) list \<times> 's" where
  "call_in_turn st H v [] w = ([], w)"
| "call_in_turn st H v (l # ls) w =
     (let ev = \<lparr>detail_value = acc_get (accessor st) TheAccessor w, detail_newValue = v\<rparr>;
          r = call_in_turn st H v ls (writes st (H l ev w) w)
      in ((l, ev) # fst r, snd r))"


fun registers :: "nat \<Rightarrow> ('s, 'a) command \<Rightarrow> bool" where
  "registers l (On l' signal) = (l' = l)"
| "registers l cmd = False"

fun reenters :: "('s, 'a) command \<Rightarrow> bool" where
  "reenters (Assign x) = True"
| "reenters cmd = False"

fun prolongs :: "('s, 'a) command \<Rightarrow> bool" where
  "prolongs (On l signal) = True"
| "prolongs (Assign x) = True"
| "prolongs cmd = False"

subsection \<open>Histories of a cell\<close>

text \<open>
  What the callers of a cell and its surroundings can do, one thing after the other:
  assign to \<^verbatim>\<open>value\<close>, call \<^verbatim>\<open>force\<close>, register a listener, call a \<^verbatim>\<open>cleanup\<close>, fire a signal,
  change the world outside (which is how the predicate changes its answer). An assignment
  that throws leaves the state it had reached, and the history goes on from there.
\<close>

datatype ('s, 'a) cell_action =
    AssignValue 'a
  | ForceCall 'a
  | Listen nat "nat option"
  | Unlisten nat
  | AbortSignal nat
  | World "'s \<Rightarrow> 's"

fun cell_step :: "nat \<Rightarrow> ('s, 'a) lockable_store \<Rightarrow> ('s, 'a) handlers \<Rightarrow> ('s, 'a) cell_action
    \<Rightarrow> ('s, 'a) cell \<Rightarrow> ('s, 'a) cell option" where
  "cell_step k st H (AssignValue v) c = map_option state_of (set_value_locked k st H v c)"
| "cell_step k st H (ForceCall v) c = Some (force st v c)"
| "cell_step k st H (Listen l signal) c = Some (onupdateprevented l signal c)"
| "cell_step k st H (Unlisten l) c = Some (cleanup l c)"
| "cell_step k st H (AbortSignal sg) c = Some (abort sg c)"
| "cell_step k st H (World f) c = Some (c\<lparr>outside := f (outside c)\<rparr>)"

fun cell_run :: "nat \<Rightarrow> ('s, 'a) lockable_store \<Rightarrow> ('s, 'a) handlers \<Rightarrow> ('s, 'a) cell_action list
    \<Rightarrow> ('s, 'a) cell \<Rightarrow> ('s, 'a) cell option" where
  "cell_run k st H [] c = Some c"
| "cell_run k st H (a # as) c =
     (case cell_step k st H a c of None \<Rightarrow> None | Some c' \<Rightarrow> cell_run k st H as c')"

fun listens :: "nat \<Rightarrow> ('s, 'a) cell_action \<Rightarrow> bool" where
  "listens l (Listen l' signal) = (l' = l)"
| "listens l a = False"

text \<open>
  An accessor written with methods, as in
  \<^verbatim>\<open>{ v: 'A', get() { return this.v; }, set(x) { this.v = x; } }\<close>: it reads and writes the
  field \<^verbatim>\<open>v\<close> of its receiver. The world is the pair of the accessor's \<^verbatim>\<open>v\<close> and the store's.
\<close>

definition method_accessor :: "('a \<times> 'a, 'a) accessor_arg" where
  "method_accessor =
     GetSet (\<lambda>this w. case this of TheAccessor \<Rightarrow> fst w | TheStore \<Rightarrow> snd w)
            (\<lambda>this x w. case this of TheAccessor \<Rightarrow> (x, snd w) | TheStore \<Rightarrow> (fst w, x))"

text \<open>A set holds every element once. Every cell made through the store is of this kind.\<close>

definition wf_cell :: "('s, 'a) cell \<Rightarrow> bool" where
  "wf_cell c = distinct (live (listeners c))"

section \<open>Properties of the loading tree\<close>

subsection \<open>Reading is total on well-formed heaps\<close>

lemma current_loop_Some:
  "\<forall>c \<in> set vs. \<exists>b. rd c = Some b \<Longrightarrow>
   current_loop rd val vs = Some (val \<or> (\<exists>c \<in> set vs. rd c = Some True))"
proof (induction vs arbitrary: val)
  case Nil
  then show ?case by simp
next
  case (Cons v vs)
  then obtain b where b: "rd v = Some b" by auto
  from Cons have IH: "\<And>x. current_loop rd x vs = Some (x \<or> (\<exists>c \<in> set vs. rd c = Some True))"
    by simp
  show ?case by (cases val; cases b) (simp_all add: b IH)
qed

lemma current_loop_mono:
  "current_loop rd val vs = Some b \<Longrightarrow> (\<And>c x. rd c = Some x \<Longrightarrow> rd' c = Some x) \<Longrightarrow>
   current_loop rd' val vs = Some b"
proof (induction vs arbitrary: val)
  case Nil
  then show ?case by simp
next
  case (Cons v vs)
  show ?case
  proof (cases val)
    case True
    with Cons.prems(1) have "current_loop rd True vs = Some b" by simp
    from Cons.IH [OF this Cons.prems(2)] True show ?thesis by simp
  next
    case False
    with Cons.prems(1) obtain x where x: "rd v = Some x" and l: "current_loop rd x vs = Some b"
      by (auto split: option.splits)
    from Cons.prems(2) [OF x] have x': "rd' v = Some x" .
    from Cons.IH [OF l Cons.prems(2)] False x' show ?thesis by simp
  qed
qed

lemma read_value_Suc:
  "read_value k e h n = Some b \<Longrightarrow> read_value (Suc k) e h n = Some b"
proof (induction k arbitrary: n b)
  case 0
  then show ?case by simp
next
  case (Suc k)
  show ?case
  proof (cases "h ! n")
    case (Store g s vs)
    with Suc.prems have "n < length h" and
      cl: "current_loop (read_value k e h) (call_get g e) vs = Some b"
      by (auto split: if_splits)
    from current_loop_mono [OF cl, of "read_value (Suc k) e h"] Suc.IH
    have "current_loop (read_value (Suc k) e h) (call_get g e) vs = Some b" by blast
    with Store \<open>n < length h\<close> show ?thesis by simp
  next
    case (PromisedStore b' t)
    with Suc.prems show ?thesis by (auto split: if_splits)
  qed
qed

lemma read_value_mono:
  "read_value k e h n = Some b \<Longrightarrow> k \<le> k' \<Longrightarrow> read_value k' e h n = Some b"
proof (induction k' arbitrary: )
  case 0
  then show ?case by simp
next
  case (Suc k')
  show ?case
  proof (cases "k = Suc k'")
    case True
    with Suc.prems show ?thesis by simp
  next
    case False
    with Suc.prems have "k \<le> k'" by simp
    from Suc.IH [OF Suc.prems(1) this] show ?thesis by (rule read_value_Suc)
  qed
qed

lemma wf_heap_child:
  assumes "wf_heap h" "n < length h" "h ! n = Store g s vs" "c \<in> set vs"
  shows "n < c \<and> c < length h"
proof -
  from assms(1,2) have "\<forall>c \<in> set (values_of h n). n < c \<and> c < length h"
    unfolding wf_heap_def by blast
  moreover from assms(3) have "values_of h n = vs" by (simp add: values_of_def)
  ultimately show ?thesis using assms(4) by blast
qed

lemma read_value_total:
  "wf_heap h \<Longrightarrow> n < length h \<Longrightarrow> length h - n \<le> k \<Longrightarrow> \<exists>b. read_value k e h n = Some b"
proof (induction k arbitrary: n)
  case 0
  then show ?case by simp
next
  case (Suc k)
  show ?case
  proof (cases "h ! n")
    case (Store g s vs)
    have "\<forall>c \<in> set vs. \<exists>b. read_value k e h c = Some b"
    proof
      fix c assume "c \<in> set vs"
      from wf_heap_child [OF Suc.prems(1,2) Store this] have c: "n < c" "c < length h" by simp_all
      with Suc.prems(3) have "length h - c \<le> k" by arith
      from Suc.IH [OF Suc.prems(1) c(2) this] show "\<exists>b. read_value k e h c = Some b" .
    qed
    from current_loop_Some [OF this]
    have "current_loop (read_value k e h) (call_get g e) vs =
          Some (call_get g e \<or> (\<exists>c\<in>set vs. read_value k e h c = Some True))" .
    with Store Suc.prems(2) show ?thesis by simp
  next
    case (PromisedStore b t)
    with Suc.prems(2) show ?thesis by simp
  qed
qed

subsection \<open>The shape of the heap is kept by every operation\<close>

lemma wf_heapI:
  assumes "\<And>n. n < length h \<Longrightarrow> distinct (values_of h n)"
    and "\<And>n c. n < length h \<Longrightarrow> c \<in> set (values_of h n) \<Longrightarrow> n < c \<and> c < length h"
    and "\<And>m n c. m < length h \<Longrightarrow> n < length h \<Longrightarrow> c \<in> set (values_of h m) \<Longrightarrow>
           c \<in> set (values_of h n) \<Longrightarrow> m = n"
  shows "wf_heap h"
  unfolding wf_heap_def using assms by blast

lemma wf_heap_distinct: "wf_heap h \<Longrightarrow> n < length h \<Longrightarrow> distinct (values_of h n)"
  unfolding wf_heap_def by blast

lemma wf_heap_bounds:
  "wf_heap h \<Longrightarrow> n < length h \<Longrightarrow> c \<in> set (values_of h n) \<Longrightarrow> n < c \<and> c < length h"
  unfolding wf_heap_def by blast

lemma wf_heap_parent:
  "wf_heap h \<Longrightarrow> m < length h \<Longrightarrow> n < length h \<Longrightarrow> c \<in> set (values_of h m) \<Longrightarrow>
   c \<in> set (values_of h n) \<Longrightarrow> m = n"
  unfolding wf_heap_def by blast

lemma wf_heap_Nil: "wf_heap []"
  by (simp add: wf_heap_def)

lemma values_of_append:
  "values_of (h @ [nd]) n = (if n < length h then values_of h n else if n = length h then node_values nd else values_of (h @ [nd]) n)"
  by (simp add: values_of_def nth_append)

lemma values_of_update:
  "p < length h \<Longrightarrow> values_of (h[p := nd]) n = (if n = p then node_values nd else values_of h n)"
  by (simp add: values_of_def)

lemma wf_heap_append:
  assumes "wf_heap h" "node_values nd = []"
  shows "wf_heap (h @ [nd])"
proof (rule wf_heapI)
  fix n assume "n < length (h @ [nd])"
  then show "distinct (values_of (h @ [nd]) n)"
    using assms by (cases "n < length h") (simp_all add: values_of_def nth_append wf_heap_distinct [unfolded values_of_def])
next
  fix n c assume n: "n < length (h @ [nd])" and c: "c \<in> set (values_of (h @ [nd]) n)"
  show "n < c \<and> c < length (h @ [nd])"
  proof (cases "n < length h")
    case True
    with c have "c \<in> set (values_of h n)" by (simp add: values_of_def nth_append)
    from wf_heap_bounds [OF assms(1) True this] show ?thesis by simp
  next
    case False
    with n c assms(2) show ?thesis by (simp add: values_of_def nth_append)
  qed
next
  fix m n c
  assume m: "m < length (h @ [nd])" and n: "n < length (h @ [nd])"
    and cm: "c \<in> set (values_of (h @ [nd]) m)" and cn: "c \<in> set (values_of (h @ [nd]) n)"
  from m cm assms(2) have m': "m < length h" "c \<in> set (values_of h m)"
    by (cases "m < length h"; simp add: values_of_def nth_append)+
  from n cn assms(2) have n': "n < length h" "c \<in> set (values_of h n)"
    by (cases "n < length h"; simp add: values_of_def nth_append)+
  from wf_heap_parent [OF assms(1) m'(1) n'(1) m'(2) n'(2)] show "m = n" .
qed

lemma wf_heap_add:
  assumes wf: "wf_heap h" and pc: "p < c" "c < length h"
    and fresh: "\<And>n. n < length h \<Longrightarrow> c \<notin> set (values_of h n)"
    and p: "h ! p = Store g s vs"
  shows "wf_heap (h[p := Store g s (values_add c vs)])"
proof -
  let ?h = "h[p := Store g s (values_add c vs)]"
  from pc have pl: "p < length h" by simp
  from p have vp: "values_of h p = vs" by (simp add: values_of_def)
  from fresh [OF pl] vp have cvs: "c \<notin> set vs" by simp
  have vals: "values_of ?h n = (if n = p then vs @ [c] else values_of h n)" for n
    using pl cvs by (simp add: values_of_update values_add_def)
  show ?thesis
  proof (rule wf_heapI)
    fix n assume "n < length ?h"
    then have n: "n < length h" by simp
    from wf_heap_distinct [OF wf n] wf_heap_distinct [OF wf pl] vp cvs
    show "distinct (values_of ?h n)"
      by (auto simp: vals)
  next
    fix n x assume "n < length ?h" and x: "x \<in> set (values_of ?h n)"
    then have n: "n < length h" by simp
    show "n < x \<and> x < length ?h"
    proof (cases "n = p \<and> x = c")
      case True
      with pc show ?thesis by simp
    next
      case False
      with x vp have "x \<in> set (values_of h n)" by (auto simp: vals split: if_splits)
      from wf_heap_bounds [OF wf n this] show ?thesis by simp
    qed
  next
    fix m n x
    assume "m < length ?h" "n < length ?h"
      and xm: "x \<in> set (values_of ?h m)" and xn: "x \<in> set (values_of ?h n)"
    then have m: "m < length h" and n: "n < length h" by simp_all
    show "m = n"
    proof (cases "x = c")
      case True
      from xm True fresh [OF m] have "m = p" by (auto simp: vals split: if_splits)
      moreover from xn True fresh [OF n] have "n = p" by (auto simp: vals split: if_splits)
      ultimately show ?thesis by simp
    next
      case False
      from xm False vp have "x \<in> set (values_of h m)" by (auto simp: vals split: if_splits)
      moreover from xn False vp have "x \<in> set (values_of h n)" by (auto simp: vals split: if_splits)
      ultimately show ?thesis using wf_heap_parent [OF wf m n] by blast
    qed
  qed
qed

lemma wf_heap_filter:
  assumes wf: "wf_heap h" and len: "length h' = length h"
    and sub: "\<And>n. n < length h \<Longrightarrow> \<exists>P. values_of h' n = filter P (values_of h n)"
  shows "wf_heap h'"
proof (rule wf_heapI)
  fix n assume "n < length h'"
  with len have n: "n < length h" by simp
  from sub [OF n] wf_heap_distinct [OF wf n] show "distinct (values_of h' n)" by auto
next
  fix n c assume "n < length h'" and c: "c \<in> set (values_of h' n)"
  with len have n: "n < length h" by simp
  from sub [OF n] c have "c \<in> set (values_of h n)" by auto
  from wf_heap_bounds [OF wf n this] len show "n < c \<and> c < length h'" by simp
next
  fix m n c
  assume "m < length h'" "n < length h'"
    and cm: "c \<in> set (values_of h' m)" and cn: "c \<in> set (values_of h' n)"
  with len have m: "m < length h" and n: "n < length h" by simp_all
  from sub [OF m] cm have "c \<in> set (values_of h m)" by auto
  moreover from sub [OF n] cn have "c \<in> set (values_of h n)" by auto
  ultimately show "m = n" using wf_heap_parent [OF wf m n] by blast
qed

lemma register_child_Inr:
  assumes "register_child p store h = Inr (h', c, k)"
  obtains g s vs where "p < length h" "h ! p = Store g s vs" "c = length h"
    "k = \<lparr>hook_parent = p, hook_store = c\<rparr>"
    "h' = (h @ [store])[p := Store g s (values_add c vs)]"
proof (cases "p < length h")
  case True
  show ?thesis
  proof (cases "h ! p")
    case (Store g s vs)
    with True assms have "c = length h" "k = \<lparr>hook_parent = p, hook_store = c\<rparr>"
      "h' = (h @ [store])[p := Store g s (values_add c vs)]"
      by (auto simp: register_child_def Let_def)
    with that [OF True Store] show ?thesis by blast
  next
    case (PromisedStore b t)
    with True assms show ?thesis by (simp add: register_child_def)
  qed
next
  case False
  with assms show ?thesis by (simp add: register_child_def)
qed

lemma wf_heap_fresh:
  assumes "wf_heap h" "n < length h"
  shows "length h \<notin> set (values_of h n)"
  using wf_heap_bounds [OF assms, of "length h"] by auto

lemma wf_register_child:
  assumes wf: "wf_heap h" and st: "node_values store = []"
    and rc: "register_child p store h = Inr (h', c, k)"
  shows "wf_heap h'"
proof -
  from rc obtain g s vs where p: "p < length h" "h ! p = Store g s vs" and c: "c = length h"
    and h': "h' = (h @ [store])[p := Store g s (values_add c vs)]"
    by (rule register_child_Inr)
  let ?h1 = "h @ [store]"
  from wf st have wf1: "wf_heap ?h1" by (rule wf_heap_append)
  have fresh: "c \<notin> set (values_of ?h1 n)" if "n < length ?h1" for n
  proof (cases "n < length h")
    case True
    with wf_heap_fresh [OF wf True] c show ?thesis by (simp add: values_of_def nth_append)
  next
    case False
    with that st show ?thesis by (simp add: values_of_def nth_append)
  qed
  from p have p1: "?h1 ! p = Store g s vs" by (simp add: nth_append)
  from p c have pc: "p < c" "c < length ?h1" by simp_all
  from wf_heap_add [OF wf1 pc fresh p1] h' show ?thesis by simp
qed

lemma wf_created_heap:
  assumes "wf_heap h" "node_values store = []"
  shows "wf_heap (created_heap (register_child p store h) h)"
proof (cases "register_child p store h")
  case (Inl err)
  with assms(1) show ?thesis by (simp add: created_heap_def)
next
  case (Inr r)
  obtain h' c k where r: "r = (h', c, k)" by (cases r)
  from wf_register_child [OF assms] Inr r show ?thesis by (simp add: created_heap_def)
qed

lemma values_of_set_value:
  "length (snd (set_value n val h)) = length h \<and> values_of (snd (set_value n val h)) m = values_of h m"
proof (cases "n < length h")
  case True
  show ?thesis
  proof (cases "h ! n")
    case (Store g s vs)
    with True show ?thesis
      by (cases "call_set s val g") (auto simp: set_value_def values_of_def nth_list_update)
  next
    case (PromisedStore b t)
    with True show ?thesis by (simp add: set_value_def)
  qed
next
  case False
  then show ?thesis by (simp add: set_value_def)
qed

lemma node_values_timer_due: "node_values (timer_due nd) = node_values nd"
  by (cases nd rule: timer_due.cases) simp_all

lemma node_values_settled: "node_values (settled nd) = node_values nd"
  by (cases nd) simp_all

lemma values_of_on_node:
  assumes "\<And>nd. node_values (f nd) = node_values nd"
  shows "length (on_node f n h) = length h \<and> values_of (on_node f n h) m = values_of h m"
  using assms by (simp add: on_node_def values_of_def nth_list_update)

lemma values_of_run_hook:
  "length (run_hook k h) = length h \<and>
   values_of (run_hook k h) m =
     (if m = hook_parent k \<and> m < length h then values_delete (hook_store k) (values_of h m)
      else values_of h m)"
proof (cases "hook_parent k < length h")
  case True
  show ?thesis
  proof (cases "h ! hook_parent k")
    case (Store g s vs)
    with True show ?thesis by (simp add: run_hook_def values_of_def nth_list_update)
  next
    case (PromisedStore b t)
    with True show ?thesis by (simp add: run_hook_def values_of_def values_delete_def)
  qed
next
  case False
  then show ?thesis by (auto simp: run_hook_def)
qed

lemma wf_same_values:
  assumes "wf_heap h" "\<And>m. length h' = length h \<and> values_of h' m = values_of h m"
  shows "wf_heap h'"
proof (rule wf_heap_filter [OF assms(1)])
  from assms(2) show "length h' = length h" by simp
  fix n
  from assms(2) have "values_of h' n = filter (\<lambda>x. True) (values_of h n)" by simp
  then show "\<exists>P. values_of h' n = filter P (values_of h n)" by blast
qed

lemma wf_run_hook:
  assumes "wf_heap h"
  shows "wf_heap (run_hook k h)"
proof (rule wf_heap_filter [OF assms])
  show "length (run_hook k h) = length h" by (simp add: values_of_run_hook)
  fix n
  show "\<exists>P. values_of (run_hook k h) n = filter P (values_of h n)"
  proof (cases "n = hook_parent k \<and> n < length h")
    case True
    then have "values_of (run_hook k h) n = filter (\<lambda>v. v \<noteq> hook_store k) (values_of h n)"
      by (simp add: values_of_run_hook values_delete_def)
    then show ?thesis by blast
  next
    case False
    then have "values_of (run_hook k h) n = filter (\<lambda>x. True) (values_of h n)"
      by (auto simp: values_of_run_hook)
    then show ?thesis by blast
  qed
qed

lemma wf_step:
  assumes "wf_heap h"
  shows "wf_heap (step a h)"
proof (cases a)
  case (UseLoading initial)
  with wf_heap_append [OF assms, of "create (StateCell initial) AssignState"]
  show ?thesis by (simp add: useLoading_def create_def)
next
  case (UseLoadingDerived f)
  with wf_heap_append [OF assms, of "create (From f) ReadonlyError"]
  show ?thesis by (simp add: useLoading_derived_def create_def)
next
  case (Scoped p initial)
  with wf_created_heap [OF assms, of "create (StateCell initial) AssignState" p]
  show ?thesis by (simp add: scoped_def create_def)
next
  case (Derived p f)
  with wf_created_heap [OF assms, of "create (From f) ReadonlyError" p]
  show ?thesis by (simp add: derived_def create_def)
next
  case (Promised p)
  with wf_created_heap [OF assms, of "PromisedStore False Pending" p]
  show ?thesis by (simp add: promised_def)
next
  case (SetValue n val)
  with wf_same_values [OF assms values_of_set_value] show ?thesis by simp
next
  case (Teardown k)
  with wf_run_hook [OF assms] show ?thesis by simp
next
  case (TimerDue n)
  with wf_same_values [OF assms values_of_on_node [of timer_due, OF node_values_timer_due]]
  show ?thesis by simp
next
  case (Settled n)
  with wf_same_values [OF assms values_of_on_node [of settled, OF node_values_settled]]
  show ?thesis by simp
qed

lemma wf_run: "wf_heap h \<Longrightarrow> wf_heap (run as h)"
  by (induction as arbitrary: h) (simp_all add: wf_step)

lemma wf_reachable: "wf_heap (run as [])"
  by (rule wf_run [OF wf_heap_Nil])

subsection \<open>The aggregate\<close>

lemma value_of_child:
  assumes wf: "wf_heap h" and n: "n < length h" and st: "h ! n = Store g s vs" and c: "c \<in> set vs"
  shows "\<exists>b. read_value (length h - 1) e h c = Some b \<and> value_of e h c = Some b"
proof -
  from wf_heap_child [OF wf n st c] have c': "n < c" "c < length h" by simp_all
  then have "length h - c \<le> length h - 1" by arith
  from read_value_total [OF wf c'(2) this] obtain b where b: "read_value (length h - 1) e h c = Some b" ..
  from read_value_mono [OF b, of "length h"] have "value_of e h c = Some b"
    by (simp add: value_of_def)
  with b show ?thesis by blast
qed

lemma value_of_Store:
  assumes wf: "wf_heap h" and n: "n < length h" and st: "h ! n = Store g s vs"
  shows "value_of e h n = Some (call_get g e \<or> (\<exists>c \<in> set vs. value_of e h c = Some True))"
proof -
  from n obtain k where k: "length h = Suc k" by (cases "length h") simp_all
  have ch: "\<forall>c \<in> set vs. \<exists>b. read_value k e h c = Some b"
    using value_of_child [OF wf n st] k by auto
  have eq: "read_value k e h c = value_of e h c" if "c \<in> set vs" for c
    using value_of_child [OF wf n st that, of e] k by auto
  have "value_of e h n = current_loop (read_value k e h) (call_get g e) vs"
    using n st k by (simp add: value_of_def)
  also have "\<dots> = Some (call_get g e \<or> (\<exists>c \<in> set vs. read_value k e h c = Some True))"
    by (rule current_loop_Some [OF ch])
  also have "(\<exists>c \<in> set vs. read_value k e h c = Some True) = (\<exists>c \<in> set vs. value_of e h c = Some True)"
    using eq by auto
  finally show ?thesis .
qed

text \<open>
  \<^bold>\<open>C1.\<close> After any history of the tree, reading the \<^verbatim>\<open>value\<close> of a store made by \<^verbatim>\<open>create\<close>
  returns its own source flag (the result of its \<^verbatim>\<open>get\<close>) or-ed with the \<^verbatim>\<open>value\<close> of every
  store now in its \<^verbatim>\<open>values\<close> set, each read through that child's own getter. The read is a
  function of the heap as it is now: a node holds no cached aggregate, so the equation
  holds again after every further action.
\<close>

theorem value_recomputed_on_every_read:
  assumes "h = run as []" and "n < length h" and "h ! n = Store g s vs"
  shows "value_of e h n = Some (call_get g e \<or> (\<exists>c \<in> set vs. value_of e h c = Some True))"
  using value_of_Store [OF _ assms(2,3)] wf_reachable [of as] assms(1) by simp

theorem value_recomputed_on_every_read_witness:
  "value_of () (run [UseLoading False, Scoped 0 False, Promised 0, SetValue 1 True] []) 0 = Some True \<and>
   value_of () (run [UseLoading False, Scoped 0 False, Promised 0] []) 0 = Some False"
proof -
  let ?h = "run [UseLoading False, Scoped 0 False, Promised 0, SetValue 1 True] ([] :: unit heap)"
  have h: "?h = [Store (StateCell False) AssignState [1, 2], Store (StateCell True) AssignState [],
      PromisedStore False Pending]"
    by (simp add: useLoading_def scoped_def promised_def register_child_def create_def
      values_add_def created_heap_def set_value_def)
  let ?h' = "run [UseLoading False, Scoped 0 False, Promised 0] ([] :: unit heap)"
  have h': "?h' = [Store (StateCell False) AssignState [1, 2], Store (StateCell False) AssignState [],
      PromisedStore False Pending]"
    by (simp add: useLoading_def scoped_def promised_def register_child_def create_def
      values_add_def created_heap_def set_value_def)
  have c1: "value_of () ?h 1 = Some True" and c2: "value_of () ?h 2 = Some False"
    and d1: "value_of () ?h' 1 = Some False" and d2: "value_of () ?h' 2 = Some False"
    unfolding h h' by (simp_all add: value_of_def eval_nat_numeral)
  have "value_of () ?h 0 =
      Some (call_get (StateCell False) () \<or> (\<exists>c \<in> set [1, 2]. value_of () ?h c = Some True))"
  proof (rule value_recomputed_on_every_read [OF refl])
    show "0 < length ?h" unfolding h by simp
    show "?h ! 0 = Store (StateCell False) AssignState [1, 2]" unfolding h by simp
  qed
  moreover
  have "value_of () ?h' 0 =
      Some (call_get (StateCell False) () \<or> (\<exists>c \<in> set [1, 2]. value_of () ?h' c = Some True))"
  proof (rule value_recomputed_on_every_read [OF refl])
    show "0 < length ?h'" unfolding h' by simp
    show "?h' ! 0 = Store (StateCell False) AssignState [1, 2]" unfolding h' by simp
  qed
  ultimately show ?thesis using c1 c2 d1 d2 by simp
qed

subsection \<open>The or method, and writes to read-only stores\<close>

lemma or_other_read_value:
  "or_other k e h n coerce other = map_option (\<lambda>v. v \<or> coerce other) (read_value k e h n)"
proof (cases k)
  case 0
  then show ?thesis by simp
next
  case (Suc k')
  show ?thesis
  proof (cases "n < length h")
    case True
    then show ?thesis unfolding Suc
      by (cases "h ! n") (simp_all split: option.splits)
  next
    case False
    then show ?thesis unfolding Suc by simp
  qed
qed

lemma value_of_total:
  assumes "wf_heap h" "n < length h"
  shows "\<exists>v. value_of e h n = Some v"
  unfolding value_of_def using assms by (intro read_value_total) simp_all

text \<open>
  \<^bold>\<open>C8.\<close> On every node of every history, \<^verbatim>\<open>or(x)\<close> returns the node's \<^verbatim>\<open>value\<close> or-ed with the
  boolean coercion of \<open>x\<close>: the coercion itself when the value is false, true when the value
  is true. \<open>or_other\<close> returns a boolean and no heap, as neither \<^verbatim>\<open>current\<close> nor a getter
  assigns anything.
\<close>

theorem or_is_value_or_coercion:
  assumes "h = run as []" and "n < length h"
  shows "\<exists>v. value_of e h n = Some v \<and>
             or_of e h n coerce other = Some (v \<or> coerce other) \<and>
             (if v then or_of e h n coerce other = Some True
              else or_of e h n coerce other = Some (coerce other))"
proof -
  from assms(1) have "wf_heap h" by (simp add: wf_reachable)
  from value_of_total [OF this assms(2)] obtain v where v: "value_of e h n = Some v" ..
  then have "or_of e h n coerce other = Some (v \<or> coerce other)"
    by (simp add: or_of_def value_of_def or_other_read_value)
  with v show ?thesis by auto
qed

theorem or_is_value_or_coercion_witness:
  "or_of () (run [UseLoading False, Scoped 0 True] []) 1 (\<lambda>s. s \<noteq> []) '''' = Some True \<and>
   or_of () (run [UseLoading False, Scoped 0 True] []) 1 (\<lambda>s. s \<noteq> []) ''x'' = Some True \<and>
   or_of () (run [UseLoading False, Promised 0] []) 1 (\<lambda>s. s \<noteq> []) '''' = Some False \<and>
   or_of () (run [UseLoading False, Promised 0] []) 1 (\<lambda>s. s \<noteq> []) ''x'' = Some True"
proof -
  let ?h = "run [UseLoading False, Scoped 0 True] ([] :: unit heap)"
  let ?g = "run [UseLoading False, Promised 0] ([] :: unit heap)"
  have h: "?h = [Store (StateCell False) AssignState [1], Store (StateCell True) AssignState []]"
    by (simp add: useLoading_def scoped_def register_child_def create_def
      values_add_def created_heap_def)
  have g: "?g = [Store (StateCell False) AssignState [1], PromisedStore False Pending]"
    by (simp add: useLoading_def promised_def register_child_def create_def
      values_add_def created_heap_def)
  have vh: "value_of () ?h 1 = Some True" and vg: "value_of () ?g 1 = Some False"
    unfolding h g by (simp_all add: value_of_def eval_nat_numeral)
  have lh: "1 < length ?h" and lg: "1 < length ?g" unfolding h g by simp_all
  from or_is_value_or_coercion [OF refl lh, of "()" "\<lambda>s. s \<noteq> []" "''''"]
    or_is_value_or_coercion [OF refl lh, of "()" "\<lambda>s. s \<noteq> []" "''x''"]
    or_is_value_or_coercion [OF refl lg, of "()" "\<lambda>s. s \<noteq> []" "''''"]
    or_is_value_or_coercion [OF refl lg, of "()" "\<lambda>s. s \<noteq> []" "''x''"]
    vh vg
  show ?thesis by auto
qed

lemma node_setter_register_child:
  assumes "register_child p store h = Inr (h', c, k)" and "n < length h"
  shows "node_setter (h' ! n) = node_setter (h ! n)"
proof -
  from assms(1) obtain g s vs where p: "p < length h" "h ! p = Store g s vs"
    and h': "h' = (h @ [store])[p := Store g s (values_add c vs)]"
    by (rule register_child_Inr)
  show ?thesis
  proof (cases "n = p")
    case True
    with p h' show ?thesis by simp
  next
    case False
    with assms(2) h' show ?thesis by (simp add: nth_append)
  qed
qed

lemma length_register_child:
  assumes "register_child p store h = Inr (h', c, k)"
  shows "length h' = Suc (length h) \<and> c = length h \<and> h' ! c = store
         \<and> k = \<lparr>hook_parent = p, hook_store = c\<rparr>"
proof -
  from assms obtain g s vs where p: "p < length h" "h ! p = Store g s vs" and c: "c = length h"
    and k: "k = \<lparr>hook_parent = p, hook_store = c\<rparr>"
    and h': "h' = (h @ [store])[p := Store g s (values_add c vs)]"
    by (rule register_child_Inr)
  from p c have "p \<noteq> c" by simp
  with p c h' k show ?thesis by simp
qed

lemma created_heap_cases:
  obtains "created_heap (register_child p store h) h = h"
  | h' c k where "register_child p store h = Inr (h', c, k)"
      "created_heap (register_child p store h) h = h'"
proof (cases "register_child p store h")
  case (Inl err)
  then show ?thesis using that(1) by (simp add: created_heap_def)
next
  case (Inr r)
  obtain h' c k where "r = (h', c, k)" by (cases r)
  with Inr show ?thesis using that(2) by (simp add: created_heap_def)
qed

lemma node_setter_created_heap:
  assumes "n < length h"
  shows "length h \<le> length (created_heap (register_child p store h) h) \<and>
         node_setter (created_heap (register_child p store h) h ! n) = node_setter (h ! n)"
proof (cases rule: created_heap_cases [of p store h])
  case 1
  then show ?thesis by simp
next
  case (2 h' c k)
  from node_setter_register_child [OF 2(1) assms] length_register_child [OF 2(1)] 2(2)
  show ?thesis by simp
qed

lemma node_setter_set_value:
  "length (snd (set_value n val h)) = length h \<and>
   node_setter (snd (set_value n val h) ! m) = node_setter (h ! m)"
proof (cases "n < length h")
  case True
  show ?thesis
  proof (cases "h ! n")
    case (Store g s vs)
    with True show ?thesis
      by (cases "call_set s val g"; cases "m = n") (auto simp: set_value_def)
  next
    case (PromisedStore b t)
    with True show ?thesis by (simp add: set_value_def)
  qed
next
  case False
  then show ?thesis by (simp add: set_value_def)
qed

lemma node_setter_run_hook:
  "length (run_hook k h) = length h \<and> node_setter (run_hook k h ! m) = node_setter (h ! m)"
proof (cases "hook_parent k < length h")
  case True
  show ?thesis
  proof (cases "h ! hook_parent k")
    case (Store g s vs)
    with True show ?thesis by (cases "m = hook_parent k") (simp_all add: run_hook_def)
  next
    case (PromisedStore b t)
    with True show ?thesis by (simp add: run_hook_def)
  qed
next
  case False
  then show ?thesis by (simp add: run_hook_def)
qed

lemma node_setter_timer_due: "node_setter (timer_due nd) = node_setter nd"
  by (cases nd rule: timer_due.cases) simp_all

lemma node_setter_settled: "node_setter (settled nd) = node_setter nd"
  by (cases nd) simp_all

lemma node_setter_on_node:
  assumes "\<And>nd. node_setter (f nd) = node_setter nd"
  shows "length (on_node f n h) = length h \<and> node_setter (on_node f n h ! m) = node_setter (h ! m)"
  using assms by (cases "m = n") (simp_all add: on_node_def)

lemma node_setter_step:
  assumes "n < length h"
  shows "length h \<le> length (step a h) \<and> node_setter (step a h ! n) = node_setter (h ! n)"
proof (cases a)
  case (UseLoading initial)
  with assms show ?thesis by (simp add: useLoading_def nth_append)
next
  case (UseLoadingDerived f)
  with assms show ?thesis by (simp add: useLoading_derived_def nth_append)
next
  case (Scoped p initial)
  with node_setter_created_heap [OF assms] show ?thesis by (simp add: scoped_def)
next
  case (Derived p f)
  with node_setter_created_heap [OF assms] show ?thesis by (simp add: derived_def)
next
  case (Promised p)
  with node_setter_created_heap [OF assms] show ?thesis by (simp add: promised_def)
next
  case (SetValue m val)
  then show ?thesis by (simp add: node_setter_set_value)
next
  case (Teardown k)
  then show ?thesis by (simp add: node_setter_run_hook)
next
  case (TimerDue m)
  then show ?thesis by (simp add: node_setter_on_node [of timer_due, OF node_setter_timer_due])
next
  case (Settled m)
  then show ?thesis by (simp add: node_setter_on_node [of settled, OF node_setter_settled])
qed

lemma node_setter_run:
  "n < length h \<Longrightarrow> n < length (run as h) \<and> node_setter (run as h ! n) = node_setter (h ! n)"
proof (induction as arbitrary: h)
  case Nil
  then show ?case by simp
next
  case (Cons a as)
  from node_setter_step [OF Cons.prems, of a]
  have l: "n < length (step a h)" and s: "node_setter (step a h ! n) = node_setter (h ! n)"
    using Cons.prems by simp_all
  from Cons.IH [OF l] s show ?case by simp
qed

lemma set_value_readonly:
  assumes "n < length h" "node_setter (h ! n) = Some ReadonlyError"
  shows "set_value n val h = (Some readonly_error, h)"
  using assms by (cases "h ! n") (simp_all add: set_value_def)

lemma set_value_promised:
  assumes "n < length h" "node_setter (h ! n) = None"
  shows "set_value n val h = (Some getter_only, h)"
  using assms by (cases "h ! n") (simp_all add: set_value_def)

text \<open>
  \<^bold>\<open>C5.\<close> Assigning to the \<^verbatim>\<open>value\<close> of a derived store (made by \<^verbatim>\<open>derived\<close> on a parent or by
  \<^verbatim>\<open>useLoading.derived\<close>) throws \<^verbatim>\<open>Error('Readonly property')\<close>, and assigning to the \<^verbatim>\<open>value\<close>
  of a promised store throws the \<^verbatim>\<open>TypeError\<close> of a getter-only property, whatever happened
  to the tree in between; the heap after the failed write is the heap before it, so every
  node's state and every aggregate are as they were.
\<close>

theorem write_to_readonly_throws:
  "(derived p f h0 = Inr (h1, c, k) \<or> useLoading_derived f h0 = (h1, c) \<longrightarrow>
      set_value c val (run as h1) = (Some readonly_error, run as h1)) \<and>
   (promised p h0 = Inr (h1, c, k) \<longrightarrow>
      set_value c val (run as h1) = (Some getter_only, run as h1))"
proof (intro conjI impI)
  assume "derived p f h0 = Inr (h1, c, k) \<or> useLoading_derived f h0 = (h1, c)"
  then have "c < length h1 \<and> node_setter (h1 ! c) = Some ReadonlyError"
  proof
    assume "derived p f h0 = Inr (h1, c, k)"
    from length_register_child [OF this [unfolded derived_def]]
    show ?thesis by (auto simp: create_def)
  next
    assume "useLoading_derived f h0 = (h1, c)"
    then show ?thesis by (auto simp: useLoading_derived_def create_def)
  qed
  with node_setter_run [of c h1 as]
  have "c < length (run as h1)" "node_setter (run as h1 ! c) = Some ReadonlyError" by simp_all
  then show "set_value c val (run as h1) = (Some readonly_error, run as h1)"
    by (rule set_value_readonly)
next
  assume "promised p h0 = Inr (h1, c, k)"
  from length_register_child [OF this [unfolded promised_def]]
  have "c < length h1 \<and> node_setter (h1 ! c) = None" by auto
  with node_setter_run [of c h1 as]
  have "c < length (run as h1)" "node_setter (run as h1 ! c) = None" by simp_all
  then show "set_value c val (run as h1) = (Some getter_only, run as h1)"
    by (rule set_value_promised)
qed

theorem write_to_readonly_throws_witness:
  "derived 0 (\<lambda>u::unit. True) [Store (StateCell False) AssignState []] =
     Inr ([Store (StateCell False) AssignState [1], Store (From (\<lambda>u. True)) ReadonlyError []], 1,
          \<lparr>hook_parent = 0, hook_store = 1\<rparr>) \<and>
   set_value 1 False
     (run [SetValue 0 True] [Store (StateCell False) AssignState [1], Store (From (\<lambda>u::unit. True)) ReadonlyError []]) =
     (Some (Error ''Readonly property''),
      [Store (StateCell True) AssignState [1], Store (From (\<lambda>u. True)) ReadonlyError []]) \<and>
   promised 0 [Store (StateCell False) AssignState []] =
     Inr ([Store (StateCell False) AssignState [1], PromisedStore False Pending :: unit node], 1,
          \<lparr>hook_parent = 0, hook_store = 1\<rparr>) \<and>
   set_value 1 True
     (run [TimerDue 1] [Store (StateCell False) AssignState [1], PromisedStore False Pending :: unit node]) =
     (Some (TypeError ''Cannot set property value of #<Object> which has only a getter''),
      [Store (StateCell False) AssignState [1], PromisedStore True Fired])"
proof -
  let ?h0 = "[Store (StateCell False) AssignState []] :: unit heap"
  let ?f = "\<lambda>u::unit. True"
  let ?h1 = "[Store (StateCell False) AssignState [1], Store (From ?f) ReadonlyError []]"
  let ?g1 = "[Store (StateCell False) AssignState [1], PromisedStore False Pending] :: unit heap"
  let ?k = "\<lparr>hook_parent = 0, hook_store = 1\<rparr>"
  have d: "derived 0 ?f ?h0 = Inr (?h1, 1, ?k)"
    by (simp add: derived_def register_child_def create_def values_add_def)
  have p: "promised 0 ?h0 = Inr (?g1, 1, ?k)"
    by (simp add: promised_def register_child_def values_add_def)
  have r1: "run [SetValue 0 True] ?h1 = [Store (StateCell True) AssignState [1], Store (From ?f) ReadonlyError []]"
    by (simp add: set_value_def)
  have r2: "run [TimerDue 1] ?g1 = [Store (StateCell False) AssignState [1], PromisedStore True Fired]"
    by (simp add: on_node_def)
  from write_to_readonly_throws [of 0 ?f ?h0 ?h1 1 ?k False "[SetValue 0 True]"] d
  have "set_value 1 False (run [SetValue 0 True] ?h1) = (Some readonly_error, run [SetValue 0 True] ?h1)"
    by blast
  moreover
  from write_to_readonly_throws [of 0 ?f ?h0 ?g1 1 ?k True "[TimerDue 1]"] p
  have "set_value 1 True (run [TimerDue 1] ?g1) = (Some getter_only, run [TimerDue 1] ?g1)"
    by blast
  ultimately show ?thesis
    unfolding r1 r2 using d p by (simp add: readonly_error_def getter_only_def)
qed

subsection \<open>Teardown\<close>

lemma length_step: "length h \<le> length (step a h)"
proof (cases "h = []")
  case True
  then show ?thesis by simp
next
  case False
  then have "0 < length h" by simp
  from node_setter_step [OF this, of a] show ?thesis by simp
qed

lemma length_run: "length h \<le> length (run as h)"
proof (induction as arbitrary: h)
  case Nil
  show ?case by simp
next
  case (Cons a as)
  from length_step [of h a] Cons.IH [of "step a h"] show ?case by simp
qed

lemma member_register_child:
  assumes rc: "register_child p store h = Inr (h', c, k)" and st: "node_values store = []"
    and x: "x \<in> set (values_of h' n)" and n: "n < length h'" and xl: "x < length h"
  shows "n < length h \<and> x \<in> set (values_of h n)"
proof -
  from rc obtain g s vs where p: "p < length h" "h ! p = Store g s vs" and c: "c = length h"
    and h': "h' = (h @ [store])[p := Store g s (values_add c vs)]"
    by (rule register_child_Inr)
  show ?thesis
  proof (cases "n = p")
    case True
    with x h' p have "x \<in> set (values_add c vs)" by (simp add: values_of_def)
    with xl c have "x \<in> set vs" by (auto simp: values_add_def split: if_splits)
    with True p show ?thesis by (simp add: values_of_def)
  next
    case False
    show ?thesis
    proof (cases "n < length h")
      case True
      with False x h' show ?thesis by (simp add: values_of_def nth_append)
    next
      case nl: False
      with n h' have "n = length h" by simp
      with False x h' st show ?thesis by (simp add: values_of_def)
    qed
  qed
qed

lemma member_created_heap:
  assumes st: "node_values store = []"
    and x: "x \<in> set (values_of (created_heap (register_child p store h) h) n)"
    and n: "n < length (created_heap (register_child p store h) h)" and xl: "x < length h"
  shows "n < length h \<and> x \<in> set (values_of h n)"
proof (cases rule: created_heap_cases [of p store h])
  case 1
  with x n show ?thesis by simp
next
  case (2 h' c k)
  with member_register_child [OF 2(1) st _ _ xl, of n] x n show ?thesis by simp
qed

lemma member_append:
  assumes "node_values nd = []" and "x \<in> set (values_of (h @ [nd]) n)" and "n < length (h @ [nd])"
  shows "n < length h \<and> x \<in> set (values_of h n)"
proof (cases "n < length h")
  case True
  with assms(2) show ?thesis by (simp add: values_of_def nth_append)
next
  case False
  with assms(3) have "n = length h" by simp
  with assms(1,2) show ?thesis by (simp add: values_of_def)
qed

lemma member_step:
  assumes x: "x \<in> set (values_of (step a h) n)" and n: "n < length (step a h)" and xl: "x < length h"
  shows "n < length h \<and> x \<in> set (values_of h n)"
proof (cases a)
  case (UseLoading initial)
  with x n member_append [of "create (StateCell initial) AssignState" x h n]
  show ?thesis by (simp add: useLoading_def create_def)
next
  case (UseLoadingDerived f)
  with x n member_append [of "create (From f) ReadonlyError" x h n]
  show ?thesis by (simp add: useLoading_derived_def create_def)
next
  case (Scoped p initial)
  with x n member_created_heap [of "create (StateCell initial) AssignState" x p h n, OF _ _ _ xl]
  show ?thesis by (simp add: scoped_def create_def)
next
  case (Derived p f)
  with x n member_created_heap [of "create (From f) ReadonlyError" x p h n, OF _ _ _ xl]
  show ?thesis by (simp add: derived_def create_def)
next
  case (Promised p)
  with x n member_created_heap [of "PromisedStore False Pending" x p h n, OF _ _ _ xl]
  show ?thesis by (simp add: promised_def)
next
  case (SetValue m val)
  with x n show ?thesis by (simp add: values_of_set_value)
next
  case (Teardown k)
  with x n show ?thesis by (auto simp: values_of_run_hook values_delete_def split: if_splits)
next
  case (TimerDue m)
  with x n show ?thesis by (simp add: values_of_on_node [of timer_due, OF node_values_timer_due])
next
  case (Settled m)
  with x n show ?thesis by (simp add: values_of_on_node [of settled, OF node_values_settled])
qed

lemma member_run:
  "x \<in> set (values_of (run as h) n) \<Longrightarrow> n < length (run as h) \<Longrightarrow> x < length h \<Longrightarrow>
   n < length h \<and> x \<in> set (values_of h n)"
proof (induction as arbitrary: h)
  case Nil
  then show ?case by simp
next
  case (Cons a as)
  from Cons.prems(3) length_step [of h a] have "x < length (step a h)" by simp
  from Cons.IH [OF _ _ this] Cons.prems(1,2)
  have "n < length (step a h) \<and> x \<in> set (values_of (step a h) n)" by simp
  with member_step [OF _ _ Cons.prems(3)] show ?case by blast
qed

lemma current_loop_cong:
  "\<forall>v \<in> set vs. rd v = rd' v \<Longrightarrow> current_loop rd val vs = current_loop rd' val vs"
  by (induction vs arbitrary: val) (simp_all split: option.splits)

lemma read_value_unregistered:
  assumes un: "\<forall>m < length h. c \<notin> set (values_of h m)"
  shows "n \<noteq> c \<Longrightarrow> read_value fuel e (h[c := nd]) n = read_value fuel e h n"
proof (induction fuel arbitrary: n)
  case 0
  show ?case by simp
next
  case (Suc fuel)
  show ?case
  proof (cases "n < length h")
    case True
    show ?thesis
    proof (cases "h ! n")
      case (Store g s vs)
      have "\<forall>v \<in> set vs. read_value fuel e (h[c := nd]) v = read_value fuel e h v"
      proof
        fix v assume "v \<in> set vs"
        with Store have "v \<in> set (values_of h n)" by (simp add: values_of_def)
        with un True have "v \<noteq> c" by blast
        then show "read_value fuel e (h[c := nd]) v = read_value fuel e h v" by (rule Suc.IH)
      qed
      from current_loop_cong [OF this] Store True Suc.prems show ?thesis by simp
    next
      case (PromisedStore b t)
      with True Suc.prems show ?thesis by simp
    qed
  next
    case False
    then show ?thesis by simp
  qed
qed

lemma values_delete_idem: "values_delete c (values_delete c vs) = values_delete c vs"
  by (simp add: values_delete_def)

lemma run_hook_idem: "run_hook k (run_hook k h) = run_hook k h"
proof (cases "hook_parent k < length h")
  case True
  show ?thesis
  proof (cases "h ! hook_parent k")
    case (Store g s vs)
    with True show ?thesis by (simp add: run_hook_def values_delete_idem)
  next
    case (PromisedStore b t)
    with True show ?thesis by (simp add: run_hook_def)
  qed
next
  case False
  then show ?thesis by (simp add: run_hook_def)
qed

lemma registered_by_creation:
  assumes wf: "wf_heap h" and st: "node_values store = []"
    and rc: "register_child p store h = Inr (h', c, k)"
  shows "values_of h' p = values_of h p @ [c]"
    and "c \<notin> set (values_of h p)"
    and "\<And>n. n < length h' \<Longrightarrow> c \<in> set (values_of h' n) \<Longrightarrow> n = p"
proof -
  from rc obtain g s vs where p: "p < length h" "h ! p = Store g s vs" and c: "c = length h"
    and h': "h' = (h @ [store])[p := Store g s (values_add c vs)]"
    by (rule register_child_Inr)
  from wf_heap_fresh [OF wf p(1)] c show nin: "c \<notin> set (values_of h p)" by simp
  with p h' show vp: "values_of h' p = values_of h p @ [c]"
    by (simp add: values_of_def values_add_def)
  from wf st rc have wf': "wf_heap h'" by (rule wf_register_child)
  from p h' have pl: "p < length h'" by simp
  fix n assume n: "n < length h'" and cn: "c \<in> set (values_of h' n)"
  from vp have "c \<in> set (values_of h' p)" by simp
  from wf_heap_parent [OF wf' n pl cn this] show "n = p" .
qed

text \<open>
  \<^bold>\<open>C6.\<close> A child made by \<^verbatim>\<open>scoped\<close>, \<^verbatim>\<open>derived\<close> or \<^verbatim>\<open>promised\<close> is put into its parent's
  \<^verbatim>\<open>values\<close> set once, together with one teardown hook. Whatever happens to the tree in
  between, running the hook takes exactly that child out of the parent's set; running it
  again changes nothing; and from then on, through every later history, the child is in no
  \<^verbatim>\<open>values\<close> set at all, so that the \<^verbatim>\<open>value\<close> read at any other node is the same whatever
  the child has become.
\<close>

theorem teardown_removes_child_for_good:
  assumes h0: "h0 = run as0 []"
    and cr: "scoped p initial h0 = Inr (h1, c, k) \<or> derived p f h0 = Inr (h1, c, k) \<or>
             promised p h0 = Inr (h1, c, k)"
    and h2: "h2 = run as1 h1" and h3: "h3 = run_hook k h2" and h4: "h4 = run as2 h3"
  shows "values_of h1 p = values_of h0 p @ [c] \<and> c \<notin> set (values_of h0 p) \<and>
         set (values_of h3 p) = set (values_of h2 p) - {c} \<and>
         run_hook k h3 = h3 \<and>
         (\<forall>n < length h4. c \<notin> set (values_of h4 n)) \<and>
         (\<forall>n nd. n \<noteq> c \<longrightarrow> value_of e (h4[c := nd]) n = value_of e h4 n)"
proof -
  from h0 have wf: "wf_heap h0" by (simp add: wf_reachable)
  from cr obtain store where st: "node_values store = []"
    and rc: "register_child p store h0 = Inr (h1, c, k)"
    unfolding scoped_def derived_def promised_def create_def
    by (metis node_values.simps)
  note reg = registered_by_creation [OF wf st rc]
  from length_register_child [OF rc] have c: "c = length h0" "length h1 = Suc (length h0)"
    and k: "hook_parent k = p" "hook_store k = c" by simp_all
  from rc have p0: "p < length h0" by (rule register_child_Inr)
  from c have c1: "c < length h1" by simp
  with length_run [of h1 as1] h2 have c2: "c < length h2" by simp
  from p0 c length_run [of h1 as1] h2 have p2: "p < length h2" by simp
  have only2: "n = p" if "n < length h2" "c \<in> set (values_of h2 n)" for n
  proof -
    from member_run [of c as1 h1 n] that h2 c1
    have "n < length h1 \<and> c \<in> set (values_of h1 n)" by simp
    with reg(3) show ?thesis by blast
  qed
  have v3: "values_of h3 n = (if n = p then values_delete c (values_of h2 n) else values_of h2 n)"
    and l3: "length h3 = length h2" for n
    using p2 k by (auto simp: h3 values_of_run_hook)
  have un3: "c \<notin> set (values_of h3 n)" if "n < length h3" for n
  proof (cases "n = p")
    case True
    then show ?thesis by (simp add: v3 values_delete_def)
  next
    case False
    with only2 [of n] that l3 show ?thesis by (auto simp: v3)
  qed
  have un4: "\<forall>n < length h4. c \<notin> set (values_of h4 n)"
  proof (intro allI impI)
    fix n assume n: "n < length h4"
    show "c \<notin> set (values_of h4 n)"
    proof
      assume "c \<in> set (values_of h4 n)"
      from member_run [of c as2 h3 n] this n h4 c2 l3
      have "n < length h3 \<and> c \<in> set (values_of h3 n)" by simp
      with un3 show False by blast
    qed
  qed
  have "set (values_of h3 p) = set (values_of h2 p) - {c}"
    by (auto simp: v3 values_delete_def)
  moreover have "run_hook k h3 = h3" unfolding h3 by (rule run_hook_idem)
  moreover have "\<forall>n nd. n \<noteq> c \<longrightarrow> value_of e (h4[c := nd]) n = value_of e h4 n"
    using read_value_unregistered [OF un4] by (simp add: value_of_def)
  ultimately show ?thesis using reg(1,2) un4 by blast
qed

theorem teardown_removes_child_for_good_witness:
  "scoped 0 True (run [UseLoading False] []) =
     Inr ([Store (StateCell False) AssignState [1], Store (StateCell True) AssignState [] :: unit node], 1,
          \<lparr>hook_parent = 0, hook_store = 1\<rparr>) \<and>
   value_of () [Store (StateCell False) AssignState [1], Store (StateCell True) AssignState []] 0 = Some True \<and>
   value_of ()
     ((run [SetValue 1 True] (run_hook \<lparr>hook_parent = 0, hook_store = 1\<rparr>
        (run [Promised 0] [Store (StateCell False) AssignState [1], Store (StateCell True) AssignState []])))
      [1 := PromisedStore True Fired]) 0 = Some False"
proof -
  let ?h1 = "[Store (StateCell False) AssignState [1], Store (StateCell True) AssignState []] :: unit heap"
  let ?k = "\<lparr>hook_parent = 0, hook_store = 1\<rparr>"
  let ?h4 = "run [SetValue 1 True] (run_hook ?k (run [Promised 0] ?h1))"
  have cr: "scoped 0 True (run [UseLoading False] []) = Inr (?h1, 1, ?k)"
    by (simp add: useLoading_def scoped_def register_child_def create_def values_add_def)
  have h4: "?h4 = [Store (StateCell False) AssignState [2], Store (StateCell True) AssignState [],
      PromisedStore False Pending]"
    by (simp add: promised_def register_child_def values_add_def created_heap_def run_hook_def
        values_delete_def set_value_def)
  have v1: "value_of () ?h1 0 = Some True"
    by (simp add: value_of_def eval_nat_numeral)
  have v4: "value_of () ?h4 0 = Some False"
    unfolding h4 by (simp add: value_of_def eval_nat_numeral)
  note T = teardown_removes_child_for_good [OF refl disjI1 [OF cr] refl refl refl,
      of "[Promised 0]" "[SetValue 1 True]" "()"]
  note F = T [THEN conjunct2, THEN conjunct2, THEN conjunct2, THEN conjunct2, THEN conjunct2]
  have ne: "(0::nat) \<noteq> 1" by simp
  from F [rule_format, OF ne, of "PromisedStore True Fired"]
  have eq: "value_of () (?h4[1 := PromisedStore True Fired]) 0 = value_of () ?h4 0" .
  from eq v4 have "value_of () (?h4[1 := PromisedStore True Fired]) 0 = Some False" by (rule trans)
  with v1 cr show ?thesis by (intro conjI)
qed

subsection \<open>The promise-tracking node over time\<close>

lemma promised_created:
  assumes "promised p h0 = Inr (h1, c, k)"
  shows "c < length h1 \<and> h1 ! c = PromisedStore False Pending"
  using length_register_child [OF assms [unfolded promised_def]] by auto

lemma value_of_promised:
  assumes "c < length h" "h ! c = PromisedStore b t"
  shows "value_of e h c = Some b"
proof -
  from assms(1) obtain k where "length h = Suc k" by (cases "length h") simp_all
  with assms show ?thesis by (simp add: value_of_def)
qed

lemma on_node_at: "c < length h \<Longrightarrow> on_node f c h ! c = f (h ! c) \<and> length (on_node f c h) = length h"
  by (simp add: on_node_def)

lemma timer_delay_in_range: "0 \<le> delay \<Longrightarrow> delay < 2 ^ 31 \<Longrightarrow> timer_delay delay = nat delay"
  by (simp add: timer_delay_def to_int32_def)

lemma timeline_node:
  assumes c: "c < length h" and nd: "h ! c = PromisedStore False Pending"
  shows "length (timeline c delay ts oc tf t h) = length h"
    and "ts < timer_delay delay \<Longrightarrow> timeline c delay ts oc tf t h ! c =
           (if t < ts then PromisedStore False Pending else PromisedStore False Cleared)"
    and "timer_delay delay < ts \<Longrightarrow> timeline c delay ts oc tf t h ! c =
           (if t < timer_delay delay then PromisedStore False Pending
            else if t < ts then PromisedStore True Fired else PromisedStore False Fired)"
  using c nd by (auto simp: timeline_def agenda_def on_node_def)

text \<open>
  \<^bold>\<open>C2\<close>, as stated, fails for a delay that \<^verbatim>\<open>setTimeout\<close> does not keep. With
  \<^verbatim>\<open>promised(p, 2147483648)\<close> and \<open>p\<close> settling after 200 ms, the promise settles long before
  the delay has elapsed, yet the store reads \<^verbatim>\<open>true\<close> at 50 ms: the delay is \<open>2^31\<close>, which
  \<^verbatim>\<open>setTimeout\<close> turns into 0.
\<close>

theorem promised_value_counterexample:
  "promised 0 [Store (StateCell False) AssignState []] =
     Inr ([Store (StateCell False) AssignState [1], PromisedStore False Pending :: unit node], 1,
          \<lparr>hook_parent = 0, hook_store = 1\<rparr>) \<and>
   (200 :: int) < 2147483648 \<and>
   value_of () (timeline 1 2147483648 200 Fulfilled True 50
      [Store (StateCell False) AssignState [1], PromisedStore False Pending]) 1 = Some True"
  by (simp add: promised_def register_child_def values_add_def timeline_def agenda_def
      timer_delay_def to_int32_def on_node_def value_of_def eval_nat_numeral)

text \<open>
  \<^bold>\<open>C2\<close>, amended. The store made by \<^verbatim>\<open>promised(p, delay)\<close> reads \<^verbatim>\<open>false\<close> when it is made.
  Let \<open>d\<close> be the delay that \<^verbatim>\<open>setTimeout\<close> keeps, which is \<open>delay\<close> itself for every integer
  delay from 0 to \<open>2^31 - 1\<close>. If \<open>p\<close> settles (fulfilled or rejected) before \<open>d\<close> has
  elapsed, the store reads \<^verbatim>\<open>false\<close> at every time, and the armed timer is cleared from the
  settlement on. If \<open>p\<close> settles after \<open>d\<close> has elapsed, the store reads \<^verbatim>\<open>false\<close> before \<open>d\<close>,
  \<^verbatim>\<open>true\<close> from \<open>d\<close> until the settlement, and \<^verbatim>\<open>false\<close> at and after the settlement, when no
  timer is left armed.
\<close>

theorem promised_value_over_time:
  assumes "promised p h0 = Inr (h1, c, k)"
  shows "value_of e h1 c = Some False \<and>
         (0 \<le> delay \<and> delay < 2 ^ 31 \<longrightarrow> timer_delay delay = nat delay) \<and>
         (ts < timer_delay delay \<longrightarrow>
            value_of e (timeline c delay ts oc tf t h1) c = Some False \<and>
            (ts \<le> t \<longrightarrow> timeline c delay ts oc tf t h1 ! c = PromisedStore False Cleared)) \<and>
         (timer_delay delay < ts \<longrightarrow>
            value_of e (timeline c delay ts oc tf t h1) c = Some (timer_delay delay \<le> t \<and> t < ts) \<and>
            (ts \<le> t \<longrightarrow> timeline c delay ts oc tf t h1 ! c = PromisedStore False Fired))"
proof -
  from promised_created [OF assms] have c: "c < length h1" and nd: "h1 ! c = PromisedStore False Pending"
    by simp_all
  note tl = timeline_node [OF c nd, where delay = delay and ts = ts and oc = oc and tf = tf and t = t]
  from tl(1) c have cl: "c < length (timeline c delay ts oc tf t h1)" by simp
  have "value_of e h1 c = Some False" using c nd by (rule value_of_promised)
  moreover have "value_of e (timeline c delay ts oc tf t h1) c = Some False"
    and "ts \<le> t \<longrightarrow> timeline c delay ts oc tf t h1 ! c = PromisedStore False Cleared"
    if "ts < timer_delay delay"
    using tl(2) [OF that] value_of_promised [OF cl, of _ _ e] by (auto split: if_splits)
  moreover have "value_of e (timeline c delay ts oc tf t h1) c = Some (timer_delay delay \<le> t \<and> t < ts)"
    and "ts \<le> t \<longrightarrow> timeline c delay ts oc tf t h1 ! c = PromisedStore False Fired"
    if "timer_delay delay < ts"
    using tl(3) [OF that] value_of_promised [OF cl, of _ _ e] that by (auto split: if_splits)
  moreover have "0 \<le> delay \<and> delay < 2 ^ 31 \<longrightarrow> timer_delay delay = nat delay"
    by (simp add: timer_delay_in_range)
  ultimately show ?thesis by blast
qed

theorem promised_value_over_time_witness:
  "promised 0 [Store (StateCell False) AssignState []] =
     Inr ([Store (StateCell False) AssignState [1], PromisedStore False Pending :: unit node], 1,
          \<lparr>hook_parent = 0, hook_store = 1\<rparr>) \<and>
   map (\<lambda>t. value_of () (timeline 1 50 10 Fulfilled True t
          [Store (StateCell False) AssignState [1], PromisedStore False Pending]) 1) [0, 9, 10, 49, 50, 100]
     = [Some False, Some False, Some False, Some False, Some False, Some False] \<and>
   map (\<lambda>t. value_of () (timeline 1 50 100 Rejected True t
          [Store (StateCell False) AssignState [1], PromisedStore False Pending]) 1) [0, 49, 50, 99, 100, 101]
     = [Some False, Some False, Some True, Some True, Some False, Some False]"
proof -
  let ?h0 = "[Store (StateCell False) AssignState []] :: unit heap"
  let ?h1 = "[Store (StateCell False) AssignState [1], PromisedStore False Pending] :: unit heap"
  have cr: "promised 0 ?h0 = Inr (?h1, 1, \<lparr>hook_parent = 0, hook_store = 1\<rparr>)"
    by (simp add: promised_def register_child_def values_add_def)
  have d: "timer_delay 50 = 50" by (simp add: timer_delay_in_range)
  note T = promised_value_over_time [OF cr, where e = "()" and delay = 50]
  note A = T [where ts = 10 and oc = Fulfilled and tf = True, THEN conjunct2, THEN conjunct2,
      THEN conjunct1, unfolded d, rule_format, THEN conjunct1]
  note B = T [where ts = 100 and oc = Rejected and tf = True, THEN conjunct2, THEN conjunct2,
      THEN conjunct2, unfolded d, rule_format, THEN conjunct1]
  have lt: "(10::nat) < 50" "(50::nat) < 100" by simp_all
  note A' = A [OF lt(1)] and B' = B [OF lt(2)]
  show ?thesis
    using cr A' [of 0] A' [of 9] A' [of 10] A' [of 49] A' [of 50] A' [of 100]
      B' [of 0] B' [of 49] B' [of 50] B' [of 99] B' [of 100] B' [of 101]
    by simp
qed

section \<open>Properties of the gated value cell\<close>

subsection \<open>What holds from the start of a call to its end\<close>

text \<open>
  A relation between the state a call starts in and the state it leaves, that holds across
  nothing happening, across one thing after another, across every single command of the
  listeners, across the record of a call and across the setter it enters, holds across the
  body of a listener, across the loop and across the setter.
\<close>

lemma run_commands_keeps:
  assumes rf: "\<And>c. R c c" and tr: "\<And>a b c. R a b \<Longrightarrow> R b c \<Longrightarrow> R a c"
    and asg: "\<And>x c r. assign x c = Some r \<Longrightarrow> R c (state_of r)"
  shows "(\<And>cmd c. cmd \<in> set cs \<Longrightarrow> R c (run_command st cmd c)) \<Longrightarrow>
         run_commands assign st cs c = Some r \<Longrightarrow> R c (state_of r)"
proof (induction cs arbitrary: c)
  case Nil
  then show ?case by (auto simp: rf)
next
  case (Cons cmd cs)
  have step: "R c (run_command st cmd c)" by (rule Cons.prems(1)) simp
  have rest: "R c' (state_of r)" if "run_commands assign st cs c' = Some r" for c'
    using Cons.IH [OF Cons.prems(1) that] by simp
  have simple: ?case if "run_commands assign st cs (run_command st cmd c) = Some r"
    using tr [OF step rest [OF that]] .
  show ?case
  proof (cases cmd)
    case (Assign x)
    show ?thesis
    proof (cases "assign x c")
      case None
      with Assign Cons.prems(2) show ?thesis by simp
    next
      case (Some r')
      show ?thesis
      proof (cases r')
        case (Returned c')
        with Some Assign Cons.prems(2) have "run_commands assign st cs c' = Some r" by simp
        from asg [OF Some] Returned have "R c c'" by simp
        from tr [OF this rest [OF \<open>run_commands assign st cs c' = Some r\<close>]]
        show ?thesis .
      next
        case (Threw c')
        with Some Assign Cons.prems(2) have "r = r'" by simp
        with asg [OF Some] show ?thesis by simp
      qed
    qed
  next
    case Throw
    with Cons.prems(2) show ?thesis by (auto simp: rf)
  next
    case (Force x)
    with Cons.prems(2) simple show ?thesis by simp
  next
    case (On l signal)
    with Cons.prems(2) simple show ?thesis by simp
  next
    case (Off l)
    with Cons.prems(2) simple show ?thesis by simp
  next
    case (Abort sg)
    with Cons.prems(2) simple show ?thesis by simp
  next
    case (Mutate f)
    with Cons.prems(2) simple show ?thesis by simp
  qed
qed

lemma notify_keeps:
  assumes rf: "\<And>c. R c c" and tr: "\<And>a b c. R a b \<Longrightarrow> R b c \<Longrightarrow> R a c"
    and asg: "\<And>x c r. assign x c = Some r \<Longrightarrow> R c (state_of r)"
    and cmd: "\<And>l ev w cmd c. cmd \<in> set (H l ev w) \<Longrightarrow> R c (run_command st cmd c)"
    and log: "\<And>l x c. Some l \<in> set (listeners c) \<Longrightarrow>
       R c (c\<lparr>calls := calls c @ [(l, \<lparr>detail_value = acc_get (accessor st) TheAccessor (outside c),
                                          detail_newValue = x\<rparr>)],
               found := found c @ [outside c]\<rparr>)"
  shows "notify k assign st H v i c = Some r \<Longrightarrow> R c (state_of r)"
proof (induction k arbitrary: i c)
  case 0
  then show ?case by simp
next
  case (Suc k)
  show ?case
  proof (cases "i < length (listeners c)")
    case False
    with Suc.prems show ?thesis by (auto simp: rf)
  next
    case True
    show ?thesis
    proof (cases "listeners c ! i")
      case None
      with True Suc.prems have "notify k assign st H v (Suc i) c = Some r" by simp
      then show ?thesis by (rule Suc.IH)
    next
      case (Some l)
      define ev where "ev = \<lparr>detail_value = acc_get (accessor st) TheAccessor (outside c), detail_newValue = v\<rparr>"
      define c1 where "c1 = c\<lparr>calls := calls c @ [(l, ev)], found := found c @ [outside c]\<rparr>"
      from True Some have "Some l \<in> set (listeners c)" by (metis nth_mem)
      from log [OF this, of v] have l1: "R c c1" by (simp add: c1_def ev_def)
      have body: "R c1 (state_of r')" if "run_commands assign st (H l ev (outside c)) c1 = Some r'" for r'
      proof (rule run_commands_keeps [where R = R and assign = assign and st = st
            and cs = "H l ev (outside c)"])
        show "\<And>a. R a a" by (rule rf)
        show "\<And>a b d. R a b \<Longrightarrow> R b d \<Longrightarrow> R a d" by (rule tr)
        show "\<And>x a r. assign x a = Some r \<Longrightarrow> R a (state_of r)" by (rule asg)
        show "\<And>cmd a. cmd \<in> set (H l ev (outside c)) \<Longrightarrow> R a (run_command st cmd a)" by (rule cmd)
        show "run_commands assign st (H l ev (outside c)) c1 = Some r'" by (rule that)
      qed
      show ?thesis
      proof (cases "run_commands assign st (H l ev (outside c)) c1")
        case None
        with True Some Suc.prems show ?thesis by (simp add: c1_def ev_def Let_def)
      next
        case (Some r')
        show ?thesis
        proof (cases r')
          case (Returned c2)
          with Some True \<open>listeners c ! i = Some l\<close> Suc.prems
          have "notify k assign st H v (Suc i) c2 = Some r"
            by (simp add: c1_def ev_def Let_def)
          from Suc.IH [OF this] body [OF Some] Returned l1 show ?thesis
            by (metis tr state_of.simps(1))
        next
          case (Threw c2)
          with Some True \<open>listeners c ! i = Some l\<close> Suc.prems have "r = r'"
            by (simp add: c1_def ev_def Let_def)
          with body [OF Some] l1 show ?thesis by (metis tr)
        qed
      qed
    qed
  qed
qed

lemma set_value_locked_keeps:
  assumes rf: "\<And>c. R c c" and tr: "\<And>a b c. R a b \<Longrightarrow> R b c \<Longrightarrow> R a c"
    and cmd: "\<And>l ev w cmd c. cmd \<in> set (H l ev w) \<Longrightarrow> R c (run_command st cmd c)"
    and log: "\<And>l x c. Some l \<in> set (listeners c) \<Longrightarrow>
       R c (c\<lparr>calls := calls c @ [(l, \<lparr>detail_value = acc_get (accessor st) TheAccessor (outside c),
                                          detail_newValue = x\<rparr>)],
               found := found c @ [outside c]\<rparr>)"
    and unlocked: "\<And>x c. \<not> lock st (outside c) \<Longrightarrow>
       R c (c\<lparr>outside := acc_set (accessor st) TheAccessor x (outside c)\<rparr>)"
  shows "set_value_locked k st H v c = Some r \<Longrightarrow> R c (state_of r)"
proof (induction k arbitrary: v c r)
  case 0
  then show ?case by simp
next
  case (Suc k)
  show ?case
  proof (cases "lock st (outside c)")
    case False
    with Suc.prems unlocked [OF False, of v] show ?thesis by auto
  next
    case True
    show ?thesis
    proof (cases "set_size (listeners c) = 0")
      case z: True
      with True Suc.prems show ?thesis by (auto simp: rf)
    next
      case False
      with True Suc.prems have "notify k (set_value_locked k st H) st H v 0 c = Some r" by simp
      have run: "notify k (set_value_locked k st H) st H v 0 c = Some r" by fact
      show ?thesis
      proof (rule notify_keeps [where R = R and assign = "set_value_locked k st H" and st = st and H = H])
        show "\<And>a. R a a" by (rule rf)
        show "\<And>a b d. R a b \<Longrightarrow> R b d \<Longrightarrow> R a d" by (rule tr)
        show "\<And>x a r. set_value_locked k st H x a = Some r \<Longrightarrow> R a (state_of r)" by (rule Suc.IH)
        show "\<And>l ev w cmd a. cmd \<in> set (H l ev w) \<Longrightarrow> R a (run_command st cmd a)" by (rule cmd)
        show "\<And>l x a. Some l \<in> set (listeners a) \<Longrightarrow>
           R a (a\<lparr>calls := calls a @ [(l, \<lparr>detail_value = acc_get (accessor st) TheAccessor (outside a),
                                          detail_newValue = x\<rparr>)],
               found := found a @ [outside a]\<rparr>)" by (rule log)
        show "notify k (set_value_locked k st H) st H v 0 c = Some r" by (rule run)
      qed
    qed
  qed
qed

subsection \<open>Single commands\<close>

lemma set_add_absent: "Some l \<notin> set ls \<Longrightarrow> l' \<noteq> l \<Longrightarrow> Some l \<notin> set (set_add l' ls)"
  by (simp add: set_add_def)

lemma set_delete_absent: "Some l \<notin> set ls \<Longrightarrow> Some l \<notin> set (set_delete l' ls)"
  by (auto simp: set_delete_def)

lemma set_delete_removes: "Some l \<notin> set (set_delete l ls)"
  by (auto simp: set_delete_def)

lemma set_delete_length: "length (set_delete l ls) = length ls"
  by (simp add: set_delete_def)

lemma cleanup_removes: "Some l \<notin> set (listeners (cleanup l c))"
  by (simp add: cleanup_def set_delete_removes)

lemma abort_fold_absent:
  "Some l \<notin> set ls \<Longrightarrow>
   Some l \<notin> set (fold (\<lambda>(sg', l') ls. if sg' = sg then set_delete l' ls else ls) hs ls)"
proof (induction hs arbitrary: ls)
  case Nil
  then show ?case by simp
next
  case (Cons h hs)
  obtain sg' l' where h: "h = (sg', l')" by (cases h)
  from Cons.prems have "Some l \<notin> set (if sg' = sg then set_delete l' ls else ls)"
    by (simp add: set_delete_absent)
  from Cons.IH [OF this] h show ?case by simp
qed

lemma abort_fold_removes:
  "(sg, l) \<in> set hs \<Longrightarrow>
   Some l \<notin> set (fold (\<lambda>(sg', l') ls. if sg' = sg then set_delete l' ls else ls) hs ls)"
proof (induction hs arbitrary: ls)
  case Nil
  then show ?case by simp
next
  case (Cons h hs)
  show ?case
  proof (cases "h = (sg, l)")
    case True
    have "Some l \<notin> set (set_delete l ls)" by (rule set_delete_removes)
    from abort_fold_absent [OF this, of sg hs] True show ?thesis by simp
  next
    case False
    with Cons.prems have "(sg, l) \<in> set hs" by simp
    from Cons.IH [OF this] show ?thesis by simp
  qed
qed

lemma abort_fold_length:
  "length (fold (\<lambda>(sg', l') ls. if sg' = sg then set_delete l' ls else ls) hs ls) = length ls"
proof (induction hs arbitrary: ls)
  case Nil
  show ?case by simp
next
  case (Cons h hs)
  obtain sg' l' where h: "h = (sg', l')" by (cases h)
  from Cons.IH [of "if sg' = sg then set_delete l' ls else ls"] h
  show ?case by (simp add: set_delete_length)
qed

lemma abort_removes:
  assumes "(sg, l) \<in> set (abort_listeners c)" "sg \<notin> set (aborted c)"
  shows "Some l \<notin> set (listeners (abort sg c))"
  using assms by (simp add: abort_def abort_fold_removes)

lemma abort_absent:
  assumes "Some l \<notin> set (listeners c)"
  shows "Some l \<notin> set (listeners (abort sg c))"
  using assms by (simp add: abort_def abort_fold_absent)

lemma abort_calls: "calls (abort sg c) = calls c \<and> found (abort sg c) = found c \<and> outside (abort sg c) = outside c"
  by (simp add: abort_def)

lemma onupdateprevented_signal:
  "(sg, l) \<in> set (abort_listeners (onupdateprevented l (Some sg) c)) \<and>
   Some l \<in> set (listeners (onupdateprevented l (Some sg) c))"
  by (simp add: onupdateprevented_def set_add_def)

lemma run_command_calls:
  "calls (run_command st cmd c) = calls c \<and> found (run_command st cmd c) = found c"
  by (cases cmd) (simp_all add: force_def onupdateprevented_def cleanup_def abort_calls)


lemma run_command_absent:
  assumes "Some l \<notin> set (listeners c)" "\<not> registers l cmd"
  shows "Some l \<notin> set (listeners (run_command st cmd c))"
  using assms
  by (cases cmd) (simp_all add: force_def onupdateprevented_def cleanup_def set_add_absent
      set_delete_absent abort_absent)

lemma run_command_length:
  "\<not> prolongs cmd \<Longrightarrow> length (listeners (run_command st cmd c)) = length (listeners c)"
  by (cases cmd) (simp_all add: force_def cleanup_def set_delete_length abort_def abort_fold_length)

text \<open>The set holds every listener once, so a walk over it meets every listener once.\<close>

lemma live_Nil: "live [] = []"
  by (simp add: live_def)

lemma live_Cons: "live (x # xs) = (case x of None \<Rightarrow> live xs | Some l \<Rightarrow> l # live xs)"
  by (cases x) (simp_all add: live_def)

lemma live_append: "live (xs @ ys) = live xs @ live ys"
  by (simp add: live_def)

lemma set_live: "set (live ls) = {l. Some l \<in> set ls}"
proof (induction ls)
  case Nil
  show ?case by (simp add: live_Nil)
next
  case (Cons x xs)
  then show ?case by (cases x) (auto simp: live_Cons)
qed


lemma distinct_live_set_add: "distinct (live ls) \<Longrightarrow> distinct (live (set_add l ls))"
  by (simp add: set_add_def live_append live_Cons live_Nil set_live)

lemma live_set_delete: "live (set_delete l ls) = filter (\<lambda>x. x \<noteq> l) (live ls)"
proof (induction ls)
  case Nil
  show ?case by (simp add: set_delete_def live_Nil)
next
  case (Cons x xs)
  then show ?case by (cases x) (auto simp: set_delete_def live_Cons)
qed

lemma distinct_live_set_delete: "distinct (live ls) \<Longrightarrow> distinct (live (set_delete l ls))"
  by (simp add: live_set_delete)

lemma distinct_live_abort_fold:
  "distinct (live ls) \<Longrightarrow>
   distinct (live (fold (\<lambda>(sg', l') ls. if sg' = sg then set_delete l' ls else ls) hs ls))"
proof (induction hs arbitrary: ls)
  case Nil
  then show ?case by simp
next
  case (Cons h hs)
  obtain sg' l' where h: "h = (sg', l')" by (cases h)
  from Cons.prems have "distinct (live (if sg' = sg then set_delete l' ls else ls))"
    by (simp add: distinct_live_set_delete)
  from Cons.IH [OF this] h show ?case by simp
qed


lemma wf_cell_run_command: "wf_cell c \<Longrightarrow> wf_cell (run_command st cmd c)"
  by (cases cmd) (simp_all add: wf_cell_def force_def onupdateprevented_def cleanup_def abort_def
      distinct_live_set_add distinct_live_set_delete distinct_live_abort_fold)

subsection \<open>What the setter keeps\<close>

lemma set_value_locked_absent:
  fixes c :: "('s, 'a) cell"
  assumes H: "\<forall>l' ev w. \<forall>cmd \<in> set (H l' ev w). \<not> registers l cmd"
    and run: "set_value_locked k st H v c = Some r" and ab: "Some l \<notin> set (listeners c)"
  shows "Some l \<notin> set (listeners (state_of r)) \<and>
         (\<exists>new. calls (state_of r) = calls c @ new \<and> l \<notin> fst ` set new)"
proof -
  define R :: "('s, 'a) cell \<Rightarrow> ('s, 'a) cell \<Rightarrow> bool" where
    "R = (\<lambda>a b. Some l \<notin> set (listeners a) \<longrightarrow>
           Some l \<notin> set (listeners b) \<and> (\<exists>new. calls b = calls a @ new \<and> l \<notin> fst ` set new))"
  have "R c (state_of r)"
  proof (rule set_value_locked_keeps [where R = R and st = st and H = H, OF _ _ _ _ _ run])
    show "R a a" for a unfolding R_def by simp
    show "R a d" if "R a b" "R b d" for a b d
    proof -
      { assume a: "Some l \<notin> set (listeners a)"
        with that(1) obtain n1 where b: "Some l \<notin> set (listeners b)" "calls b = calls a @ n1"
          "l \<notin> fst ` set n1" unfolding R_def by blast
        with that(2) obtain n2 where d: "Some l \<notin> set (listeners d)" "calls d = calls b @ n2"
          "l \<notin> fst ` set n2" unfolding R_def by blast
        from b d have "calls d = calls a @ (n1 @ n2)" "l \<notin> fst ` set (n1 @ n2)" by auto
        with d(1) have "Some l \<notin> set (listeners d) \<and> (\<exists>new. calls d = calls a @ new \<and> l \<notin> fst ` set new)"
          by blast }
      then show ?thesis unfolding R_def by blast
    qed
    show "R a (run_command st cmd a)" if "cmd \<in> set (H l' ev w)" for l' ev w cmd a
    proof -
      from H that have nr: "\<not> registers l cmd" by blast
      { assume "Some l \<notin> set (listeners a)"
        from run_command_absent [OF this nr]
        have "Some l \<notin> set (listeners (run_command st cmd a)) \<and>
              calls (run_command st cmd a) = calls a @ [] \<and> l \<notin> fst ` set []"
          by (simp add: run_command_calls) }
      then show ?thesis unfolding R_def by blast
    qed
    show "R a (a\<lparr>calls := calls a @ [(l', \<lparr>detail_value = acc_get (accessor st) TheAccessor (outside a),
                                          detail_newValue = x\<rparr>)],
               found := found a @ [outside a]\<rparr>)"
      if "Some l' \<in> set (listeners a)" for l' x a
    proof -
      { assume a: "Some l \<notin> set (listeners a)"
        with that have "l' \<noteq> l" by auto
        then have "l \<notin> fst ` set [(l', \<lparr>detail_value = acc_get (accessor st) TheAccessor (outside a),
                                          detail_newValue = x\<rparr>)]" by simp }
      then show ?thesis unfolding R_def by auto
    qed
    show "R a (a\<lparr>outside := acc_set (accessor st) TheAccessor x (outside a)\<rparr>)" for x a
      unfolding R_def by simp
  qed
  with ab show ?thesis unfolding R_def by blast
qed


lemma set_value_locked_found:
  fixes c :: "('s, 'a) cell"
  assumes run: "set_value_locked k st H v c = Some r"
  shows "\<exists>new ws. calls (state_of r) = calls c @ new \<and> found (state_of r) = found c @ ws \<and>
           map (\<lambda>x. detail_value (snd x)) new = map (acc_get (accessor st) TheAccessor) ws"
proof -
  define R :: "('s, 'a) cell \<Rightarrow> ('s, 'a) cell \<Rightarrow> bool" where
    "R = (\<lambda>a b. \<exists>new ws. calls b = calls a @ new \<and> found b = found a @ ws \<and>
           map (\<lambda>x. detail_value (snd x)) new = map (acc_get (accessor st) TheAccessor) ws)"
  have "R c (state_of r)"
  proof (rule set_value_locked_keeps [where R = R and st = st and H = H, OF _ _ _ _ _ run])
    show "R a a" for a
    proof -
      have "calls a = calls a @ [] \<and> found a = found a @ [] \<and>
           map (\<lambda>x. detail_value (snd x)) [] = map (acc_get (accessor st) TheAccessor) []" by simp
      then show ?thesis unfolding R_def by blast
    qed
    show "R a d" if "R a b" "R b d" for a b d
    proof -
      from that(1) obtain n1 w1 where b: "calls b = calls a @ n1" "found b = found a @ w1"
        "map (\<lambda>x. detail_value (snd x)) n1 = map (acc_get (accessor st) TheAccessor) w1"
        unfolding R_def by blast
      from that(2) obtain n2 w2 where d: "calls d = calls b @ n2" "found d = found b @ w2"
        "map (\<lambda>x. detail_value (snd x)) n2 = map (acc_get (accessor st) TheAccessor) w2"
        unfolding R_def by blast
      from b d have "calls d = calls a @ (n1 @ n2) \<and> found d = found a @ (w1 @ w2) \<and>
        map (\<lambda>x. detail_value (snd x)) (n1 @ n2) = map (acc_get (accessor st) TheAccessor) (w1 @ w2)"
        by simp
      then show ?thesis unfolding R_def by blast
    qed
    show "R a (run_command st cmd a)" for cmd a
    proof -
      have "calls (run_command st cmd a) = calls a @ [] \<and> found (run_command st cmd a) = found a @ [] \<and>
           map (\<lambda>x. detail_value (snd x)) [] = map (acc_get (accessor st) TheAccessor) []"
        by (simp add: run_command_calls)
      then show ?thesis unfolding R_def by blast
    qed
    show "R a (a\<lparr>calls := calls a @ [(l', \<lparr>detail_value = acc_get (accessor st) TheAccessor (outside a),
                                          detail_newValue = x\<rparr>)],
               found := found a @ [outside a]\<rparr>)" for l' x a
    proof -
      let ?b = "a\<lparr>calls := calls a @ [(l', \<lparr>detail_value = acc_get (accessor st) TheAccessor (outside a),
                                          detail_newValue = x\<rparr>)],
               found := found a @ [outside a]\<rparr>"
      let ?n = "[(l', \<lparr>detail_value = acc_get (accessor st) TheAccessor (outside a), detail_newValue = x\<rparr>)]"
      have "calls ?b = calls a @ ?n \<and> found ?b = found a @ [outside a] \<and>
           map (\<lambda>x. detail_value (snd x)) ?n = map (acc_get (accessor st) TheAccessor) [outside a]"
        by simp
      then show ?thesis unfolding R_def by blast
    qed
    show "R a (a\<lparr>outside := acc_set (accessor st) TheAccessor x (outside a)\<rparr>)" for x a
    proof -
      let ?b = "a\<lparr>outside := acc_set (accessor st) TheAccessor x (outside a)\<rparr>"
      have "calls ?b = calls a @ [] \<and> found ?b = found a @ [] \<and>
           map (\<lambda>x. detail_value (snd x)) [] = map (acc_get (accessor st) TheAccessor) []" by simp
      then show ?thesis unfolding R_def by blast
    qed
  qed
  then show ?thesis unfolding R_def .
qed

lemma set_value_locked_wf:
  fixes c :: "('s, 'a) cell"
  assumes run: "set_value_locked k st H v c = Some r" and wf: "wf_cell c"
  shows "wf_cell (state_of r)"
proof -
  define R :: "('s, 'a) cell \<Rightarrow> ('s, 'a) cell \<Rightarrow> bool" where
    "R = (\<lambda>a b. wf_cell a \<longrightarrow> wf_cell b)"
  have "R c (state_of r)"
  proof (rule set_value_locked_keeps [where R = R and st = st and H = H, OF _ _ _ _ _ run])
    show "R a a" for a unfolding R_def by simp
    show "R a d" if "R a b" "R b d" for a b d using that unfolding R_def by simp
    show "R a (run_command st cmd a)" for cmd a
      unfolding R_def by (simp add: wf_cell_run_command)
    show "R a (a\<lparr>calls := calls a @ [(l', \<lparr>detail_value = acc_get (accessor st) TheAccessor (outside a),
                                          detail_newValue = x\<rparr>)],
               found := found a @ [outside a]\<rparr>)" for l' x a
      unfolding R_def by (simp add: wf_cell_def)
    show "R a (a\<lparr>outside := acc_set (accessor st) TheAccessor x (outside a)\<rparr>)" for x a
      unfolding R_def by (simp add: wf_cell_def)
  qed
  with wf show ?thesis unfolding R_def by blast
qed

subsection \<open>Listeners that only write the world\<close>






lemma call_in_turn_nth:
  "i < length ls \<Longrightarrow>
   fst (call_in_turn st H v ls w) ! i =
     (ls ! i, \<lparr>detail_value = acc_get (accessor st) TheAccessor (snd (call_in_turn st H v (take i ls) w)),
              detail_newValue = v\<rparr>)"
proof (induction ls arbitrary: i w)
  case Nil
  then show ?case by simp
next
  case (Cons l ls)
  show ?case
  proof (cases i)
    case 0
    then show ?thesis by (simp add: Let_def)
  next
    case (Suc j)
    with Cons.prems have "j < length ls" by simp
    from Cons.IH [OF this] Suc show ?thesis by (simp add: Let_def)
  qed
qed

subsection \<open>When the setter returns\<close>

lemma run_commands_returns:
  "\<forall>cmd \<in> set cs. \<not> prolongs cmd \<Longrightarrow>
   \<exists>r. run_commands assign st cs c = Some r \<and> length (listeners (state_of r)) = length (listeners c)"
proof (induction cs arbitrary: c)
  case Nil
  show ?case by simp
next
  case (Cons cmd cs)
  then have np: "\<not> prolongs cmd" and rest: "\<forall>cmd \<in> set cs. \<not> prolongs cmd" by simp_all
  from Cons.IH [OF rest, of "run_command st cmd c"] run_command_length [OF np, of st c]
  have simple: "\<exists>r. run_commands assign st cs (run_command st cmd c) = Some r \<and>
      length (listeners (state_of r)) = length (listeners c)" by simp
  from np simple show ?case by (cases cmd) simp_all
qed

text \<open>
  The loop returns (or is left by an exception) whenever no listener registers a listener
  or enters the setter again: the entry list then keeps its length, and every round moves
  one entry on.
\<close>

lemma notify_returns:
  assumes H: "\<forall>l ev w. \<forall>cmd \<in> set (H l ev w). \<not> prolongs cmd"
  shows "length (listeners c) - i < k \<Longrightarrow> \<exists>r. notify k assign st H v i c = Some r"
proof (induction k arbitrary: i c)
  case 0
  then show ?case by simp
next
  case (Suc k)
  show ?case
  proof (cases "i < length (listeners c)")
    case False
    then show ?thesis by simp
  next
    case True
    with Suc.prems have fu: "length (listeners c) - Suc i < k" by simp
    show ?thesis
    proof (cases "listeners c ! i")
      case None
      from Suc.IH [OF fu] None True show ?thesis by simp
    next
      case (Some l)
      define ev where "ev = \<lparr>detail_value = acc_get (accessor st) TheAccessor (outside c), detail_newValue = v\<rparr>"
      define c1 where "c1 = c\<lparr>calls := calls c @ [(l, ev)], found := found c @ [outside c]\<rparr>"
      from H have "\<forall>cmd \<in> set (H l ev (outside c)). \<not> prolongs cmd" by blast
      from run_commands_returns [OF this, of assign st c1] obtain r' where
        r': "run_commands assign st (H l ev (outside c)) c1 = Some r'"
          "length (listeners (state_of r')) = length (listeners c)"
        by (auto simp: c1_def)
      show ?thesis
      proof (cases r')
        case (Returned c2)
        with r'(2) fu have "length (listeners c2) - Suc i < k" by simp
        from Suc.IH [OF this] obtain r where "notify k assign st H v (Suc i) c2 = Some r" ..
        with True Some r'(1) Returned show ?thesis by (simp add: c1_def ev_def Let_def)
      next
        case (Threw c2)
        with True Some r'(1) show ?thesis by (simp add: c1_def ev_def Let_def)
      qed
    qed
  qed
qed

lemma set_value_locked_returns:
  assumes "\<forall>l ev w. \<forall>cmd \<in> set (H l ev w). \<not> prolongs cmd" and "length (listeners c) < k"
  shows "\<exists>r. set_value_locked (Suc k) st H v c = Some r"
  using notify_returns [OF assms(1), of c 0 k "set_value_locked k st H" st v] assms(2) by simp

subsection \<open>Listeners that do not enter the setter again\<close>

lemma run_commands_flat:
  "\<forall>cmd \<in> set cs. \<not> reenters cmd \<Longrightarrow>
   \<exists>r. run_commands assign st cs c = Some r \<and> outside (state_of r) = writes st cs (outside c) \<and>
       calls (state_of r) = calls c"
proof (induction cs arbitrary: c)
  case Nil
  show ?case by simp
next
  case (Cons cmd cs)
  then have nr: "\<not> reenters cmd" and rest: "\<forall>cmd \<in> set cs. \<not> reenters cmd" by simp_all
  note IH = Cons.IH [OF rest, of "run_command st cmd c"]
  show ?case
  proof (cases cmd)
    case (Force x)
    with IH show ?thesis by (simp add: force_def)
  next
    case (Assign x)
    with nr show ?thesis by simp
  next
    case (On l signal)
    with IH show ?thesis by (simp add: onupdateprevented_def)
  next
    case (Off l)
    with IH show ?thesis by (simp add: cleanup_def)
  next
    case (Abort sg)
    with IH show ?thesis by (simp add: abort_calls)
  next
    case (Mutate f)
    with IH show ?thesis by simp
  next
    case Throw
    then show ?thesis by simp
  qed
qed

lemma notify_replay:
  assumes H: "\<forall>l ev w. \<forall>cmd \<in> set (H l ev w). \<not> reenters cmd"
  shows "notify k assign st H v i c = Some r \<Longrightarrow>
         \<exists>new. calls (state_of r) = calls c @ new \<and>
               outside (state_of r) = replay st H new (outside c) \<and>
               (\<forall>j < length new. snd (new ! j) =
                  \<lparr>detail_value = acc_get (accessor st) TheAccessor (replay st H (take j new) (outside c)),
                   detail_newValue = v\<rparr>)"
proof (induction k arbitrary: i c)
  case 0
  then show ?case by simp
next
  case (Suc k)
  show ?case
  proof (cases "i < length (listeners c)")
    case False
    with Suc.prems have "r = Returned c" by simp
    then show ?thesis by (intro exI [of _ "[]"]) simp
  next
    case True
    show ?thesis
    proof (cases "listeners c ! i")
      case None
      with True Suc.prems have "notify k assign st H v (Suc i) c = Some r" by simp
      then show ?thesis by (rule Suc.IH)
    next
      case (Some l)
      define ev where "ev = \<lparr>detail_value = acc_get (accessor st) TheAccessor (outside c), detail_newValue = v\<rparr>"
      define c1 where "c1 = c\<lparr>calls := calls c @ [(l, ev)], found := found c @ [outside c]\<rparr>"
      from H have "\<forall>cmd \<in> set (H l ev (outside c)). \<not> reenters cmd" by blast
      from run_commands_flat [OF this, of assign st c1] obtain r' where
        r': "run_commands assign st (H l ev (outside c)) c1 = Some r'"
          "outside (state_of r') = writes st (H l ev (outside c)) (outside c)"
          "calls (state_of r') = calls c @ [(l, ev)]"
        by (auto simp: c1_def)
      have one: "replay st H [(l, ev)] (outside c) = writes st (H l ev (outside c)) (outside c)"
        by simp
      have zero: "snd (((l, ev) # xs) ! 0) =
          \<lparr>detail_value = acc_get (accessor st) TheAccessor (replay st H (take 0 ((l, ev) # xs)) (outside c)),
           detail_newValue = v\<rparr>" for xs
        by (simp add: ev_def)
      show ?thesis
      proof (cases r')
        case (Threw c2)
        with True Some r'(1) Suc.prems have "r = Threw c2" by (simp add: c1_def ev_def Let_def)
        with r'(2,3) Threw one zero [of "[]"]
        have "calls (state_of r) = calls c @ [(l, ev)] \<and>
              outside (state_of r) = replay st H [(l, ev)] (outside c) \<and>
              (\<forall>j < length [(l, ev)]. snd ([(l, ev)] ! j) =
                  \<lparr>detail_value = acc_get (accessor st) TheAccessor (replay st H (take j [(l, ev)]) (outside c)),
                   detail_newValue = v\<rparr>)"
          by simp
        then show ?thesis by blast
      next
        case (Returned c2)
        with True Some r'(1) Suc.prems have "notify k assign st H v (Suc i) c2 = Some r"
          by (simp add: c1_def ev_def Let_def)
        from Suc.IH [OF this] obtain new where new:
          "calls (state_of r) = calls c2 @ new"
          "outside (state_of r) = replay st H new (outside c2)"
          "\<forall>j < length new. snd (new ! j) =
              \<lparr>detail_value = acc_get (accessor st) TheAccessor (replay st H (take j new) (outside c2)),
               detail_newValue = v\<rparr>"
          by blast
        from r'(2,3) Returned have c2: "outside c2 = writes st (H l ev (outside c)) (outside c)"
          "calls c2 = calls c @ [(l, ev)]" by simp_all
        have a: "calls (state_of r) = calls c @ ((l, ev) # new)" using new(1) c2(2) by simp
        have b: "outside (state_of r) = replay st H ((l, ev) # new) (outside c)"
          using new(2) c2(1) by simp
        have d: "snd (((l, ev) # new) ! j) =
              \<lparr>detail_value = acc_get (accessor st) TheAccessor
                 (replay st H (take j ((l, ev) # new)) (outside c)), detail_newValue = v\<rparr>"
          if "j < length ((l, ev) # new)" for j
        proof (cases j)
          case 0
          with zero [of new] show ?thesis by simp
        next
          case (Suc j')
          with that have "j' < length new" by simp
          with new(3) Suc c2(1) show ?thesis by simp
        qed
        from a b d show ?thesis by blast
      qed
    qed
  qed
qed

lemma set_value_locked_replay:
  assumes H: "\<forall>l ev w. \<forall>cmd \<in> set (H l ev w). \<not> reenters cmd"
    and lk: "lock st (outside c)" and run: "set_value_locked k st H v c = Some r"
  shows "\<exists>new. calls (state_of r) = calls c @ new \<and>
               outside (state_of r) = replay st H new (outside c) \<and>
               (\<forall>j < length new. snd (new ! j) =
                  \<lparr>detail_value = acc_get (accessor st) TheAccessor (replay st H (take j new) (outside c)),
                   detail_newValue = v\<rparr>)"
proof (cases k)
  case 0
  with run show ?thesis by simp
next
  case (Suc k')
  show ?thesis
  proof (cases "set_size (listeners c) = 0")
    case True
    with run lk Suc have "r = Returned c" by simp
    then show ?thesis by (intro exI [of _ "[]"]) simp
  next
    case False
    with run lk Suc have "notify k' (set_value_locked k' st H) st H v 0 c = Some r" by simp
    from notify_replay [OF H this] show ?thesis .
  qed
qed

subsection \<open>Histories\<close>

lemma cell_step_absent:
  assumes H: "\<forall>l' ev w. \<forall>cmd \<in> set (H l' ev w). \<not> registers l cmd"
    and a: "\<not> listens l a"
    and run: "cell_step k st H a c = Some c'" and ab: "Some l \<notin> set (listeners c)"
  shows "Some l \<notin> set (listeners c') \<and> (\<exists>new. calls c' = calls c @ new \<and> l \<notin> fst ` set new)"
proof (cases a)
  case (AssignValue v)
  with run obtain r where r: "set_value_locked k st H v c = Some r" and c': "c' = state_of r"
    by auto
  from set_value_locked_absent [OF H r ab] c' show ?thesis by simp
next
  case (ForceCall v)
  with run have "c' = force st v c" by simp
  with ab have "Some l \<notin> set (listeners c') \<and> calls c' = calls c @ [] \<and> l \<notin> fst ` set []"
    by (simp add: force_def)
  then show ?thesis by blast
next
  case (Listen l' signal)
  with run a have "c' = onupdateprevented l' signal c" and "l' \<noteq> l" by simp_all
  with ab have "Some l \<notin> set (listeners c') \<and> calls c' = calls c @ [] \<and> l \<notin> fst ` set []"
    by (simp add: onupdateprevented_def set_add_absent)
  then show ?thesis by blast
next
  case (Unlisten l')
  with run have "c' = cleanup l' c" by simp
  with ab have "Some l \<notin> set (listeners c') \<and> calls c' = calls c @ [] \<and> l \<notin> fst ` set []"
    by (simp add: cleanup_def set_delete_absent)
  then show ?thesis by blast
next
  case (AbortSignal sg)
  with run have c': "c' = abort sg c" by simp
  with abort_absent [OF ab, of sg]
  have "Some l \<notin> set (listeners c') \<and> calls c' = calls c @ [] \<and> l \<notin> fst ` set []"
    by (simp add: abort_calls)
  then show ?thesis by blast
next
  case (World f)
  with run ab have "Some l \<notin> set (listeners c') \<and> calls c' = calls c @ [] \<and> l \<notin> fst ` set []"
    by auto
  then show ?thesis by blast
qed

lemma cell_run_absent:
  assumes H: "\<forall>l' ev w. \<forall>cmd \<in> set (H l' ev w). \<not> registers l cmd"
  shows "\<forall>a \<in> set as. \<not> listens l a \<Longrightarrow> cell_run k st H as c = Some c' \<Longrightarrow>
         Some l \<notin> set (listeners c) \<Longrightarrow>
         Some l \<notin> set (listeners c') \<and> (\<exists>new. calls c' = calls c @ new \<and> l \<notin> fst ` set new)"
proof (induction as arbitrary: c)
  case Nil
  then have "Some l \<notin> set (listeners c') \<and> calls c' = calls c @ [] \<and> l \<notin> fst ` set []" by simp
  then show ?case by blast
next
  case (Cons a as)
  from Cons.prems(2) obtain c1 where c1: "cell_step k st H a c = Some c1"
    and rest: "cell_run k st H as c1 = Some c'"
    by (auto split: option.splits)
  from Cons.prems(1) have na: "\<not> listens l a" and nas: "\<forall>a \<in> set as. \<not> listens l a" by simp_all
  from cell_step_absent [OF H na c1 Cons.prems(3)] obtain new1 where
    s1: "Some l \<notin> set (listeners c1)" "calls c1 = calls c @ new1" "l \<notin> fst ` set new1" by blast
  from Cons.IH [OF nas rest s1(1)] obtain new2 where
    s2: "Some l \<notin> set (listeners c')" "calls c' = calls c1 @ new2" "l \<notin> fst ` set new2" by blast
  from s1 s2 have "calls c' = calls c @ (new1 @ new2)" "l \<notin> fst ` set (new1 @ new2)" by auto
  with s2(1) show ?case by blast
qed

lemma cell_step_wf:
  assumes "cell_step k st H a c = Some c'" "wf_cell c"
  shows "wf_cell c'"
proof (cases a)
  case (AssignValue v)
  with assms(1) obtain r where r: "set_value_locked k st H v c = Some r" and c': "c' = state_of r"
    by auto
  from set_value_locked_wf [OF r assms(2)] c' show ?thesis by simp
next
  case (ForceCall v)
  with assms wf_cell_run_command [of c st "Force v"] show ?thesis by simp
next
  case (Listen l signal)
  with assms wf_cell_run_command [of c st "On l signal"] show ?thesis by simp
next
  case (Unlisten l)
  with assms wf_cell_run_command [of c st "Off l"] show ?thesis by simp
next
  case (AbortSignal sg)
  with assms wf_cell_run_command [of c st "Abort sg"] show ?thesis by simp
next
  case (World f)
  with assms wf_cell_run_command [of c st "Mutate f"] show ?thesis by simp
qed

lemma cell_run_wf: "cell_run k st H as c = Some c' \<Longrightarrow> wf_cell c \<Longrightarrow> wf_cell c'"
proof (induction as arbitrary: c)
  case Nil
  then show ?case by simp
next
  case (Cons a as)
  from Cons.prems(1) obtain c1 where c1: "cell_step k st H a c = Some c1"
    and rest: "cell_run k st H as c1 = Some c'"
    by (auto split: option.splits)
  from Cons.IH [OF rest cell_step_wf [OF c1 Cons.prems(2)]] show ?case .
qed

subsection \<open>Writes while locked\<close>








subsection \<open>What each listener is handed\<close>

text \<open>
  \<^bold>\<open>C10.\<close> During one locked write, whatever the listeners do, every event it hands out
  carries as \<^verbatim>\<open>value\<close> what \<^verbatim>\<open>accessor.get()\<close> returns in the world as it is when that listener
  is called (\<open>found\<close> is the list of these worlds): the accessor is read again just before
  each call, and each call gets an event of its own. When the listeners do not assign to
  the cell again (they may force, write the place, add or remove listeners, remove
  themselves, throw), the world of the \<open>j\<close>-th call is the world of the start with the writes
  of the \<open>j\<close> listeners called before it carried out, one after the other: a listener that
  forces a new value is seen by every later listener of the same write. (Such a write
  returns or throws whenever no listener registers a listener, by
  \<open>set_value_locked_returns\<close>.)
\<close>

theorem event_value_is_read_before_each_call:
  fixes c :: "('s, 'a) cell"
  assumes "lock st (outside c)" and "set_value_locked k st H v c = Some r"
  shows "(\<exists>new ws. calls (state_of r) = calls c @ new \<and> found (state_of r) = found c @ ws \<and>
            map (\<lambda>x. detail_value (snd x)) new = map (acc_get (accessor st) TheAccessor) ws) \<and>
         ((\<forall>l ev w. \<forall>cmd \<in> set (H l ev w). \<not> reenters cmd) \<longrightarrow>
            (\<exists>new. calls (state_of r) = calls c @ new \<and>
               outside (state_of r) = replay st H new (outside c) \<and>
               (\<forall>j < length new. snd (new ! j) =
                  \<lparr>detail_value = acc_get (accessor st) TheAccessor (replay st H (take j new) (outside c)),
                   detail_newValue = v\<rparr>)))"
proof (intro conjI impI)
  from assms(2) show "\<exists>new ws. calls (state_of r) = calls c @ new \<and> found (state_of r) = found c @ ws \<and>
            map (\<lambda>x. detail_value (snd x)) new = map (acc_get (accessor st) TheAccessor) ws"
    by (rule set_value_locked_found)
next
  assume "\<forall>l ev w. \<forall>cmd \<in> set (H l ev w). \<not> reenters cmd"
  from this assms show "\<exists>new. calls (state_of r) = calls c @ new \<and>
               outside (state_of r) = replay st H new (outside c) \<and>
               (\<forall>j < length new. snd (new ! j) =
                  \<lparr>detail_value = acc_get (accessor st) TheAccessor (replay st H (take j new) (outside c)),
                   detail_newValue = v\<rparr>)"
    by (rule set_value_locked_replay)
qed

theorem event_value_is_read_before_each_call_witness:
  "lock (lockable (\<lambda>u::unit. True))
     (outside (onupdateprevented 2 None (onupdateprevented 1 None (new_cell ((), ''A'')))
        :: (unit \<times> string, string) cell)) \<and>
   map_option (\<lambda>r. (map fst (calls (state_of r)), snd (calls (state_of r) ! 1), listeners (state_of r)))
     (set_value_locked 4 (lockable (\<lambda>u::unit. True))
        (\<lambda>l ev w. if l = 1 then [Force ''C'', Off 1] else []) ''B''
        (onupdateprevented 2 None (onupdateprevented 1 None (new_cell ((), ''A''))))) =
   Some ([1, 2], \<lparr>detail_value = ''C'', detail_newValue = ''B''\<rparr>, [None, Some 2])"
proof -
  let ?st = "lockable (\<lambda>u::unit. True) :: (unit \<times> string, string) lockable_store"
  let ?c = "onupdateprevented 2 None (onupdateprevented 1 None (new_cell ((), ''A''))) ::
    (unit \<times> string, string) cell"
  let ?H = "(\<lambda>l ev w. if l = 1 then [Force ''C'', Off 1] else []) :: (unit \<times> string, string) handlers"
  have lkc: "lock ?st (outside ?c)"
    by (simp add: lockable_def lockable_from_def)
  have ca: "calls ?c = []" and ou: "outside ?c = ((), ''A'')"
    by (simp_all add: onupdateprevented_def new_cell_def set_add_def)
  have "\<exists>r. set_value_locked 4 ?st ?H ''B'' ?c = Some r \<and> map fst (calls (state_of r)) = [1, 2] \<and>
      fst (calls (state_of r) ! 0) = 1 \<and> detail_value (snd (calls (state_of r) ! 0)) = ''A'' \<and>
      detail_newValue (snd (calls (state_of r) ! 0)) = ''B'' \<and>
      listeners (state_of r) = [None, Some 2]"
    by (simp add: lockable_def lockable_from_def onupdateprevented_def new_cell_def set_add_def
        set_size_def force_def cleanup_def set_delete_def Let_def eval_nat_numeral)
  then obtain r where run: "set_value_locked 4 ?st ?H ''B'' ?c = Some r"
    and fs: "map fst (calls (state_of r)) = [1, 2]"
    and c0: "fst (calls (state_of r) ! 0) = 1" "detail_value (snd (calls (state_of r) ! 0)) = ''A''"
      "detail_newValue (snd (calls (state_of r) ! 0)) = ''B''"
    and li: "listeners (state_of r) = [None, Some 2]"
    by (elim exE conjE) (rule that)
  have nr: "\<forall>l ev w. \<forall>cmd \<in> set (?H l ev w). \<not> reenters cmd" by simp
  from event_value_is_read_before_each_call [OF lkc run] nr
  obtain new where new: "calls (state_of r) = calls ?c @ new"
    "\<forall>j < length new. snd (new ! j) =
        \<lparr>detail_value = acc_get (accessor ?st) TheAccessor (replay ?st ?H (take j new) (outside ?c)),
         detail_newValue = ''B''\<rparr>"
    by blast
  from new(1) ca have eq: "new = calls (state_of r)" by simp
  from fs have len: "length new = 2" unfolding eq using length_map [of fst "calls (state_of r)"] by simp
  then obtain x y where xy: "new = [x, y]"
    by (cases new; cases "tl new"; cases "tl (tl new)") auto
  from c0 have x: "x = (1, \<lparr>detail_value = ''A'', detail_newValue = ''B''\<rparr>)"
    unfolding eq [symmetric] xy by (cases x) (simp add: locked_detail.equality)
  from new(2) len have "snd (new ! 1) =
        \<lparr>detail_value = acc_get (accessor ?st) TheAccessor (replay ?st ?H (take 1 new) (outside ?c)),
         detail_newValue = ''B''\<rparr>"
    by simp
  then have "snd (new ! 1) = \<lparr>detail_value = ''C'', detail_newValue = ''B''\<rparr>"
    unfolding xy x ou by (simp add: lockable_def lockable_from_def)
  then have "snd (calls (state_of r) ! 1) = \<lparr>detail_value = ''C'', detail_newValue = ''B''\<rparr>"
    unfolding eq .
  with fs li have "map_option (\<lambda>r. (map fst (calls (state_of r)), snd (calls (state_of r) ! 1),
      listeners (state_of r))) (set_value_locked 4 ?st ?H ''B'' ?c) =
      Some ([1, 2], \<lparr>detail_value = ''C'', detail_newValue = ''B''\<rparr>, [None, Some 2])"
    unfolding run by simp
  with lkc show ?thesis by (rule conjI)
qed

subsection \<open>force\<close>

text \<open>
  \<^verbatim>\<open>force\<close> is a getter that returns the function \<^verbatim>\<open>accessor.set\<close>; a call \<^verbatim>\<open>store.force(v)\<close>
  applies that function with the store as its receiver. It asks the predicate nothing,
  calls no listener and leaves the registry alone.
\<close>

lemma force_applies_set:
  "outside (force st v c) = acc_set (accessor st) TheStore v (outside c) \<and>
   calls (force st v c) = calls c \<and> found (force st v c) = found c \<and>
   listeners (force st v c) = listeners c \<and> abort_listeners (force st v c) = abort_listeners c \<and>
   aborted (force st v c) = aborted c"
  by (simp add: force_def)

text \<open>
  Where \<^verbatim>\<open>set\<close> does not look at its receiver and \<^verbatim>\<open>get\<close> gives back what \<^verbatim>\<open>set\<close> stored, a
  read after \<^verbatim>\<open>force(v)\<close> returns \<open>v\<close>. The accessors that the library builds itself are of
  this kind: the arrow functions of \<^verbatim>\<open>lockable(lock, value)\<close>, and the ones that \<^verbatim>\<open>from\<close> puts
  around a \<^verbatim>\<open>{ value }\<close> object.
\<close>

lemma force_reads_back:
  assumes "\<And>w. acc_get (accessor st) TheAccessor (acc_set (accessor st) TheStore v w) = v"
  shows "get_value st (force st v c) = v"
  using assms by (simp add: force_def get_value_def)

lemma force_lockable: "get_value (lockable lk) (force (lockable lk) v c) = v"
  by (simp add: force_def get_value_def lockable_def lockable_from_def)

lemma force_value_object:
  assumes "\<And>w. rd (wr v w) = v"
  shows "get_value (lockable_from lk (ValueObject rd wr))
           (force (lockable_from lk (ValueObject rd wr)) v c) = v"
  using assms by (simp add: force_def get_value_def lockable_from_def)

text \<open>
  \<^bold>\<open>C7\<close> does not hold of the code for an accessor whose \<^verbatim>\<open>get\<close> and \<^verbatim>\<open>set\<close> are methods that use
  \<^verbatim>\<open>this\<close>, as the instance of
  \<^verbatim>\<open>class Box { v = 'A'; get() { return this.v; } set(x) { this.v = x; } }\<close>.
  The world is the pair of the field \<^verbatim>\<open>v\<close> of the accessor and the field \<^verbatim>\<open>v\<close> of the store
  (empty while the store has none). The cell is locked and reads \<open>''A''\<close>. \<^verbatim>\<open>store.force('B')\<close>
  runs \<^verbatim>\<open>set\<close> with the store as \<^verbatim>\<open>this\<close>: it writes \<open>''B''\<close> into a field of the store, the
  accessor keeps \<open>''A''\<close>, and a read after \<^verbatim>\<open>force\<close> returns \<open>''A''\<close>, not \<open>''B''\<close>. The setter of
  the same store, on its unlocked path, calls \<^verbatim>\<open>accessor.set(v)\<close> as a method: there the
  write of \<open>''B''\<close> reaches the accessor and a read returns \<open>''B''\<close>.
\<close>

theorem force_loses_its_receiver:
  "locked (lockable_from (\<lambda>w. True) method_accessor) (new_cell (''A'', '''')) \<and>
   get_value (lockable_from (\<lambda>w. True) method_accessor) (new_cell (''A'', '''')) = ''A'' \<and>
   outside (force (lockable_from (\<lambda>w. True) method_accessor) ''B'' (new_cell (''A'', ''''))) = (''A'', ''B'') \<and>
   get_value (lockable_from (\<lambda>w. True) method_accessor)
     (force (lockable_from (\<lambda>w. True) method_accessor) ''B'' (new_cell (''A'', ''''))) = ''A'' \<and>
   get_value (lockable_from (\<lambda>w. False) method_accessor)
     (force (lockable_from (\<lambda>w. False) method_accessor) ''B'' (new_cell (''A'', ''''))) = ''A'' \<and>
   map_option (\<lambda>r. (outside (state_of r), get_value (lockable_from (\<lambda>w. False) method_accessor) (state_of r)))
     (set_value_locked 1 (lockable_from (\<lambda>w. False) method_accessor) (\<lambda>l ev w. []) ''B''
        (new_cell (''A'', ''''))) = Some ((''B'', ''''), ''B'')"
  by (simp add: lockable_from_def method_accessor_def new_cell_def force_def get_value_def locked_def)

subsection \<open>Removed listeners\<close>

text \<open>
  \<^bold>\<open>C9.\<close> Once a listener has been removed, by the function that \<^verbatim>\<open>onupdateprevented\<close> returned
  or by the abort of the signal it was registered with, no later write calls it, however
  the cell is used afterwards, for as long as nobody registers it again. (The writes of
  such a history return or throw whenever no listener registers a listener or assigns to
  the cell, by \<open>set_value_locked_returns\<close>.)
\<close>

theorem removed_listener_is_not_called:
  assumes "c1 = cleanup l c0 \<or>
           (c1 = abort sg c0 \<and> (sg, l) \<in> set (abort_listeners c0) \<and> sg \<notin> set (aborted c0))"
    and "\<forall>a \<in> set as. \<not> listens l a"
    and "\<forall>l' ev w. \<forall>cmd \<in> set (H l' ev w). \<not> registers l cmd"
    and "cell_run k st H as c1 = Some c2"
  shows "\<exists>new. calls c2 = calls c1 @ new \<and> l \<notin> fst ` set new"
proof -
  from assms(1) have "Some l \<notin> set (listeners c1)"
    using cleanup_removes abort_removes by blast
  from cell_run_absent [OF assms(3,2,4) this] show ?thesis by blast
qed

theorem removed_listener_is_not_called_witness:
  "(\<exists>c2. cell_run 5 (lockable (\<lambda>u::unit. True)) (\<lambda>l ev w. [Force ''D'', On 3 None])
          [AssignValue ''B'', AssignValue ''C'']
          (cleanup 1 (onupdateprevented 2 None (onupdateprevented 1 (Some 7) (new_cell ((), ''A''))))) = Some c2 \<and>
        map fst (calls c2) = [2, 3, 2, 3] \<and> 1 \<notin> fst ` set (calls c2)) \<and>
   (\<exists>c2. cell_run 5 (lockable (\<lambda>u::unit. True)) (\<lambda>l ev w. [Force ''D'', On 3 None])
          [AssignValue ''B'']
          (abort 7 (onupdateprevented 2 None (onupdateprevented 1 (Some 7) (new_cell ((), ''A''))))) = Some c2 \<and>
        map fst (calls c2) = [2, 3] \<and> 1 \<notin> fst ` set (calls c2))"
proof -
  let ?st = "lockable (\<lambda>u::unit. True) :: (unit \<times> string, string) lockable_store"
  let ?H = "(\<lambda>l ev w. [Force ''D'', On 3 None]) :: (unit \<times> string, string) handlers"
  let ?c0 = "onupdateprevented 2 None (onupdateprevented 1 (Some 7) (new_cell ((), ''A''))) ::
    (unit \<times> string, string) cell"
  have c0: "?c0 = \<lparr>outside = ((), ''A''), listeners = [Some 1, Some 2], abort_listeners = [(7, 1)],
      aborted = [], calls = [], found = []\<rparr>"
    by (simp add: onupdateprevented_def new_cell_def set_add_def)
  have ca: "cleanup 1 ?c0 = \<lparr>outside = ((), ''A''), listeners = [None, Some 2],
      abort_listeners = [(7, 1)], aborted = [], calls = [], found = []\<rparr>"
    unfolding c0 by (simp add: cleanup_def set_delete_def)
  have cb: "abort 7 ?c0 = \<lparr>outside = ((), ''A''), listeners = [None, Some 2],
      abort_listeners = [], aborted = [7], calls = [], found = []\<rparr>"
    unfolding c0 by (simp add: abort_def set_delete_def)
  have ra: "\<exists>c2. cell_run 5 ?st ?H [AssignValue ''B'', AssignValue ''C''] (cleanup 1 ?c0) = Some c2 \<and>
      map fst (calls c2) = [2, 3, 2, 3]"
    unfolding ca
    by (simp add: lockable_def lockable_from_def set_size_def set_add_def force_def
        onupdateprevented_def Let_def eval_nat_numeral)
  have rb: "\<exists>c2. cell_run 5 ?st ?H [AssignValue ''B''] (abort 7 ?c0) = Some c2 \<and>
      map fst (calls c2) = [2, 3]"
    unfolding cb
    by (simp add: lockable_def lockable_from_def set_size_def set_add_def force_def
        onupdateprevented_def Let_def eval_nat_numeral)
  have nl: "\<forall>a \<in> set [AssignValue ''B'', AssignValue ''C'' :: (unit \<times> string, string) cell_action]. \<not> listens 1 a"
    and nl': "\<forall>a \<in> set [AssignValue ''B'' :: (unit \<times> string, string) cell_action]. \<not> listens 1 a"
    and nr: "\<forall>l' ev w. \<forall>cmd \<in> set (?H l' ev w). \<not> registers 1 cmd"
    by simp_all
  have pre: "(7, 1) \<in> set (abort_listeners ?c0) \<and> 7 \<notin> set (aborted ?c0)"
    unfolding c0 by simp
  have cca: "calls (cleanup 1 ?c0) = []" unfolding ca by simp
  have ccb: "calls (abort 7 ?c0) = []" unfolding cb by simp
  from ra obtain c2 where c2: "cell_run 5 ?st ?H [AssignValue ''B'', AssignValue ''C''] (cleanup 1 ?c0) = Some c2"
    "map fst (calls c2) = [2, 3, 2, 3]" by (elim exE conjE) (rule that)
  from removed_listener_is_not_called [OF disjI1 [OF refl] nl nr c2(1)]
  obtain new where a: "calls c2 = calls (cleanup 1 ?c0) @ new" "1 \<notin> fst ` set new" by blast
  from a have "1 \<notin> fst ` set (calls c2)" unfolding cca by simp
  with c2 have A: "\<exists>c2. cell_run 5 ?st ?H [AssignValue ''B'', AssignValue ''C''] (cleanup 1 ?c0) = Some c2 \<and>
        map fst (calls c2) = [2, 3, 2, 3] \<and> 1 \<notin> fst ` set (calls c2)"
    by (intro exI [of _ c2] conjI)
  from rb obtain c3 where c3: "cell_run 5 ?st ?H [AssignValue ''B''] (abort 7 ?c0) = Some c3"
    "map fst (calls c3) = [2, 3]" by (elim exE conjE) (rule that)
  from removed_listener_is_not_called [OF disjI2 [OF conjI [OF refl pre]] nl' nr c3(1)]
  obtain new' where b: "calls c3 = calls (abort 7 ?c0) @ new'" "1 \<notin> fst ` set new'" by blast
  from b have "1 \<notin> fst ` set (calls c3)" unfolding ccb by simp
  with c3 have B: "\<exists>c2. cell_run 5 ?st ?H [AssignValue ''B''] (abort 7 ?c0) = Some c2 \<and>
        map fst (calls c2) = [2, 3] \<and> 1 \<notin> fst ` set (calls c2)"
    by (intro exI [of _ c3] conjI)
  from A B show ?thesis by (rule conjI)
qed

end
